theory Spec2Isabelle
  imports Main
begin

section \<open>Strings of the program\<close>

text \<open>
  \<^verbatim>\<open>split.py\<close> is a Python 2 script (it uses the \<^verbatim>\<open>print\<close> statement), so the lines it
  reads from \<^verbatim>\<open>README.md\<close> are byte strings: a \<^typ>\<open>string\<close> here is the list of the bytes
  of a Python \<^verbatim>\<open>str\<close>. On single bytes, \<^verbatim>\<open>isalnum\<close> and \<^verbatim>\<open>lower\<close> follow the C locale
  (the script never changes it): only the ASCII letters and digits are alphanumeric, and
  only \<^verbatim>\<open>A-Z\<close> change under \<^verbatim>\<open>lower\<close>.
\<close>

abbreviation nl :: char where
  "nl \<equiv> CHR 0x0A"

definition in_range :: "nat \<Rightarrow> nat \<Rightarrow> char \<Rightarrow> bool" where
  "in_range lo hi c = (lo \<le> of_char c \<and> (of_char c :: nat) \<le> hi)"

definition isdigit :: "char \<Rightarrow> bool" where
  "isdigit c = in_range 48 57 c"

definition isupper :: "char \<Rightarrow> bool" where
  "isupper c = in_range 65 90 c"

definition islower :: "char \<Rightarrow> bool" where
  "islower c = in_range 97 122 c"

definition isalnum :: "char \<Rightarrow> bool" where
  "isalnum c = (islower c \<or> isupper c \<or> isdigit c)"

definition lower_char :: "char \<Rightarrow> char" where
  "lower_char c = (if isupper c then char_of (of_char c + (32 :: nat)) else c)"

definition lower :: "string \<Rightarrow> string" where
  "lower s = map lower_char s"

text \<open>\<^verbatim>\<open>s.replace(a, b)\<close> for one-character \<^verbatim>\<open>a\<close> and \<^verbatim>\<open>b\<close>.\<close>

definition replace_char :: "char \<Rightarrow> char \<Rightarrow> string \<Rightarrow> string" where
  "replace_char a b s = map (\<lambda>c. if c = a then b else c) s"

text \<open>\<^verbatim>\<open>s.replace(a, "")\<close> for a one-character \<^verbatim>\<open>a\<close>.\<close>

definition remove_char :: "char \<Rightarrow> string \<Rightarrow> string" where
  "remove_char a s = filter (\<lambda>c. c \<noteq> a) s"

text \<open>\<^verbatim>\<open>s.startswith(p)\<close>.\<close>

definition startswith :: "string \<Rightarrow> string \<Rightarrow> bool" where
  "startswith s p = (take (length p) s = p)"

text \<open>
  The slice \<^verbatim>\<open>s[k:-1]\<close>: from index \<^verbatim>\<open>k\<close> up to, and without, the last character;
  empty when the string has at most \<^verbatim>\<open>k + 1\<close> characters.
\<close>

definition slice_to_last :: "nat \<Rightarrow> string \<Rightarrow> string" where
  "slice_to_last k s = butlast (drop k s)"

text \<open>\<^verbatim>\<open>"{0}".format(v)\<close> for a value that is a string or \<^verbatim>\<open>None\<close>.\<close>

fun format_value :: "string option \<Rightarrow> string" where
  "format_value None = ''None''"
| "format_value (Some s) = s"

section \<open>Slugification\<close>

text \<open>
  \<^verbatim>\<open>"".join(c for c in title if c.isalnum() or c in [" ", "-"]).replace(" ", "-").lower()\<close>
\<close>

definition slugify :: "string \<Rightarrow> string" where
  "slugify title =
     lower (replace_char CHR '' '' CHR ''-''
       (filter (\<lambda>c. isalnum c \<or> c \<in> set [CHR '' '', CHR ''-'']) title))"

section \<open>The segmenter\<close>

text \<open>
  One entry of the list \<^verbatim>\<open>sections\<close>: the tuple \<^verbatim>\<open>(title, slug, current_section)\<close>.
  The third component is the list object that \<^verbatim>\<open>current_section\<close> also names, so
  \<^verbatim>\<open>current_section.append\<close> extends the buffer of the entry appended last.
\<close>

record section_entry =
  title :: string
  slug :: string
  buffer :: "string list"

text \<open>
  The module's global variables. \<^verbatim>\<open>current_section\<close> is not a field: from the moment
  the preamble is seen it is the buffer of the last entry of \<^verbatim>\<open>sections\<close>, and before that
  it is \<^verbatim>\<open>None\<close> and \<^verbatim>\<open>sections\<close> is empty. \<^verbatim>\<open>current_section_slug\<close> starts as \<^verbatim>\<open>None\<close>,
  and the values of \<^verbatim>\<open>subsection_slugs\<close> are what \<^verbatim>\<open>current_section_slug\<close> held, so they
  may be \<^verbatim>\<open>None\<close> too.
\<close>

record globals =
  seen_preamble :: bool
  section_slugs :: "string set"
  current_section_slug :: "string option"
  sections :: "section_entry list"
  subsection_slugs :: "string \<rightharpoonup> string option"

definition initial :: globals where
  "initial = \<lparr>seen_preamble = False, section_slugs = {}, current_section_slug = None,
     sections = [], subsection_slugs = Map.empty\<rparr>"

definition rule_line :: string where
  "rule_line = ''---'' @ [nl]"

text \<open>
  \<^verbatim>\<open>current_section.append(x)\<close>. With no section yet \<^verbatim>\<open>current_section\<close> is \<^verbatim>\<open>None\<close>;
  the loop never appends then (see \<open>seen_preamble_sections\<close> below), and the model leaves
  the globals as they are.
\<close>

fun append_buffer :: "string \<Rightarrow> section_entry list \<Rightarrow> section_entry list" where
  "append_buffer x [] = []"
| "append_buffer x [s] = [s\<lparr>buffer := buffer s @ [x]\<rparr>]"
| "append_buffer x (s # t # ss) = s # append_buffer x (t # ss)"

definition current_section_append :: "string \<Rightarrow> globals \<Rightarrow> globals" where
  "current_section_append x g = g\<lparr>sections := append_buffer x (sections g)\<rparr>"

text \<open>\<^verbatim>\<open>not current_section\<close>: true of \<^verbatim>\<open>None\<close> and of the empty list.\<close>

definition current_section_empty :: "globals \<Rightarrow> bool" where
  "current_section_empty g = (sections g = [] \<or> buffer (last (sections g)) = [])"

text \<open>The loop body while \<^verbatim>\<open>seen_preamble\<close> is false.\<close>

definition preamble_line :: "globals \<Rightarrow> string \<Rightarrow> globals" where
  "preamble_line g line =
     (if line = rule_line
      then g\<lparr>seen_preamble := True,
             sections := sections g @
               [\<lparr>title = ''Introduction'', slug = ''introduction'', buffer = []\<rparr>]\<rparr>
      else g)"

text \<open>
  The loop body once the preamble is seen, for a line other than the closing rule (that
  line leaves the loop): the branches from \<^verbatim>\<open>elif line.startswith("## ")\<close> on, in the
  source's order.
\<close>

definition section_line :: "globals \<Rightarrow> string \<Rightarrow> globals" where
  "section_line g line =
     (if startswith line ''## '' then
        (let t = slice_to_last 3 line in
         if t = ''Contents'' then current_section_append line g
         else
           (let s = slugify t in
            g\<lparr>current_section_slug := Some s,
              section_slugs := insert s (section_slugs g),
              sections := sections g @ [\<lparr>title = t, slug = s, buffer = []\<rparr>]\<rparr>))
      else if current_section_empty g \<and> line = [nl] then g
      else if startswith line ''#'' then
        (let g' = current_section_append (drop 1 line) g;
             t = slice_to_last 1 (remove_char CHR ''#'' line)
         in g'\<lparr>subsection_slugs := (subsection_slugs g')(slugify t \<mapsto> current_section_slug g')\<rparr>)
      else current_section_append line g)"

text \<open>\<^verbatim>\<open>for line in f\<close>, with its \<^verbatim>\<open>break\<close> at the closing rule.\<close>

fun segment_loop :: "globals \<Rightarrow> string list \<Rightarrow> globals" where
  "segment_loop g [] = g"
| "segment_loop g (line # rest) =
     (if \<not> seen_preamble g then segment_loop (preamble_line g line) rest
      else if line = rule_line then g
      else segment_loop (section_line g line) rest)"

definition segment :: "string list \<Rightarrow> globals" where
  "segment doc = segment_loop initial doc"

text \<open>
  The lines a file object yields when iterated: each ends with its newline, except
  possibly the last.
\<close>

fun lines_from :: "string \<Rightarrow> string \<Rightarrow> string list" where
  "lines_from cur [] = (if cur = [] then [] else [cur])"
| "lines_from cur (c # cs) =
     (if c = nl then (cur @ [c]) # lines_from [] cs else lines_from (cur @ [c]) cs)"

definition file_lines :: "string \<Rightarrow> string list" where
  "file_lines content = lines_from [] content"

section \<open>The link rewriter\<close>

text \<open>
  \<^verbatim>\<open>link_regex = re.compile(r"\]\(#([-a-zA-Z0-9]+)\)")\<close>. The character class is the
  hyphen, the lower-case and upper-case ASCII letters and the digits.
\<close>

definition link_char :: "char \<Rightarrow> bool" where
  "link_char c = (c = CHR ''-'' \<or> islower c \<or> isupper c \<or> isdigit c)"

text \<open>
  A match of \<^verbatim>\<open>link_regex\<close> that starts at the head of the string: group 1 and the text
  after the match. The class holds neither bracket, so the greedy \<^verbatim>\<open>+\<close> takes the
  longest run of class characters, and backtracking to a shorter run never meets the
  closing parenthesis.
\<close>

definition match_link :: "string \<Rightarrow> (string \<times> string) option" where
  "match_link s =
     (if startswith s ''](#'' then
        (let link = takeWhile link_char (drop 3 s);
             rest = dropWhile link_char (drop 3 s)
         in if link \<noteq> [] \<and> startswith rest '')'' then Some (link, drop 1 rest) else None)
      else None)"

text \<open>
  \<^verbatim>\<open>substitute_link(match)\<close>, given group 1 of the match: the replacement text, and the
  lines it prints.
\<close>

definition substitute_link :: "globals \<Rightarrow> string \<Rightarrow> string \<times> string list" where
  "substitute_link g link =
     (if link \<in> section_slugs g then ('']('' @ link @ ''.html)'', [])
      else
        (case subsection_slugs g link of
           Some owner \<Rightarrow> ('']('' @ format_value owner @ ''.html#'' @ link @ '')'', [])
         | None \<Rightarrow> (link, [''Unknown: '' @ link])))"

lemma match_link_shorter:
  "match_link s = Some (link, rest) \<Longrightarrow> length rest < length s"
proof -
  assume m: "match_link s = Some (link, rest)"
  then have r: "rest = drop 1 (dropWhile link_char (drop 3 s))"
    and p: "startswith s ''](#''"
    by (auto simp: match_link_def Let_def split: if_splits)
  from p have "3 \<le> length s"
    by (cases "3 \<le> length s") (auto simp: startswith_def)
  moreover have "length (dropWhile link_char (drop 3 s)) \<le> length (drop 3 s)"
    by (rule length_dropWhile_le)
  ultimately show ?thesis using r by simp
qed

text \<open>
  \<^verbatim>\<open>link_regex.sub(substitute_link, line)\<close>: the matches are found from left to right,
  none overlapping another; each is replaced by what \<^verbatim>\<open>substitute_link\<close> returns for it,
  and the text between matches is kept. The second component collects what the calls
  print, in order.
\<close>

function link_regex_sub :: "globals \<Rightarrow> string \<Rightarrow> string \<times> string list" where
  "link_regex_sub g [] = ([], [])"
| "link_regex_sub g (c # cs) =
     (case match_link (c # cs) of
        Some (link, rest) \<Rightarrow>
          (fst (substitute_link g link) @ fst (link_regex_sub g rest),
           snd (substitute_link g link) @ snd (link_regex_sub g rest))
      | None \<Rightarrow> (c # fst (link_regex_sub g cs), snd (link_regex_sub g cs)))"
  by pat_completeness auto
termination
  by (relation "measure (\<lambda>(g, s). length s)") (auto dest: match_link_shorter)

text \<open>
  \<^verbatim>\<open>for j, line in enumerate(section): section[j] = link_regex.sub(substitute_link, line)\<close>
\<close>

fun rewrite_buffer :: "globals \<Rightarrow> string list \<Rightarrow> string list \<times> string list" where
  "rewrite_buffer g [] = ([], [])"
| "rewrite_buffer g (line # rest) =
     (fst (link_regex_sub g line) # fst (rewrite_buffer g rest),
      snd (link_regex_sub g line) @ snd (rewrite_buffer g rest))"

section \<open>Navigation and output\<close>

text \<open>
  The navigation texts are \<^verbatim>\<open>unicode\<close> literals. Python 2 decodes a byte string that
  meets one (as an argument of \<^verbatim>\<open>format\<close>, or in \<^verbatim>\<open>join\<close>) with the ASCII codec, and
  raises \<^verbatim>\<open>UnicodeDecodeError\<close> at a byte above 127. A \<^verbatim>\<open>unicode\<close> value is written here
  as its UTF-8 encoding, which is what reaches the file: the arrows U+2190 and U+2192
  are three bytes each.
\<close>

datatype error = UnicodeDecodeError

definition is_ascii :: "string \<Rightarrow> bool" where
  "is_ascii s = list_all (\<lambda>c. (of_char c :: nat) < 128) s"

definition left_arrow :: string where
  "left_arrow = [CHR 0xE2, CHR 0x86, CHR 0x90]"

definition right_arrow :: string where
  "right_arrow = [CHR 0xE2, CHR 0x86, CHR 0x92]"

text \<open>\<^verbatim>\<open>u"[\u2190 Previous: {0}]({1}.html)".format(*sections[i - 1][0:2])\<close>\<close>

definition previous_link :: "section_entry \<Rightarrow> error + string" where
  "previous_link s =
     (if is_ascii (title s) \<and> is_ascii (slug s)
      then Inr (''['' @ left_arrow @ '' Previous: '' @ title s @ '']('' @ slug s @ ''.html)'')
      else Inl UnicodeDecodeError)"

text \<open>\<^verbatim>\<open>u"[Next: {0} \u2192]({1}.html)".format(*sections[i + 1][0:2])\<close>\<close>

definition next_link :: "section_entry \<Rightarrow> error + string" where
  "next_link s =
     (if is_ascii (title s) \<and> is_ascii (slug s)
      then Inr (''[Next: '' @ title s @ '' '' @ right_arrow @ '']('' @ slug s @ ''.html)'')
      else Inl UnicodeDecodeError)"

text \<open>
  The list \<^verbatim>\<open>navigation\<close> of section \<^verbatim>\<open>i\<close>. Both index expressions are in range where
  they are evaluated: \<^verbatim>\<open>i - 1\<close> under \<^verbatim>\<open>i > 0\<close>, \<^verbatim>\<open>i + 1\<close> under \<^verbatim>\<open>i < len(sections) - 1\<close>.
\<close>

definition navigation :: "nat \<Rightarrow> section_entry list \<Rightarrow> error + string list" where
  "navigation i secs =
     (case (if i > 0 then previous_link (secs ! (i - 1)) else Inr []) of
        Inl e \<Rightarrow> Inl e
      | Inr p \<Rightarrow>
          (case (if i < length secs - 1 then next_link (secs ! (i + 1)) else Inr []) of
             Inl e \<Rightarrow> Inl e
           | Inr n \<Rightarrow>
               Inr ((if i > 0 then [p] else []) @ (if i < length secs - 1 then [n] else []))))"

text \<open>\<^verbatim>\<open>sep.join(xs)\<close>\<close>

fun join :: "string \<Rightarrow> string list \<Rightarrow> string" where
  "join sep [] = []"
| "join sep [x] = x"
| "join sep (x # y # ys) = x @ sep @ join sep (y # ys)"

text \<open>\<^verbatim>\<open>u"\n\n---\n\n{0}\n".format(" | ".join(navigation))\<close>\<close>

definition footer :: "string list \<Rightarrow> string" where
  "footer nav = [nl, nl] @ ''---'' @ [nl, nl] @ join '' | '' nav @ [nl]"

definition copyright_notice :: string where
  "copyright_notice =
     ''_This material was written by [Aasmund Eldhuset](https://eldhuset.net/); '' @
     ''it is owned by [Khan Academy](https://www.khanacademy.org/) and is licensed for use under '' @
     ''[CC BY-NC-SA 3.0 US](https://creativecommons.org/licenses/by-nc-sa/3.0/us/). '' @
     ''Please note that this is not a part of Khan Academy'' @ [CHR 0x27] @
     ''s official product offering._'' @ [nl, nl] @ ''---'' @ [nl, nl, nl]"

text \<open>Decimal digits of a number, and \<^verbatim>\<open>"{0:02}".format(i)\<close>.\<close>

fun decimal :: "nat \<Rightarrow> string" where
  "decimal n =
     (if n < 10 then [char_of (48 + n)] else decimal (n div 10) @ [char_of (48 + n mod 10)])"

definition two_digits :: "nat \<Rightarrow> string" where
  "two_digits i = (if i < 10 then CHR ''0'' # decimal i else decimal i)"

text \<open>
  What the run leaves outside the program: the lines printed, the text written to
  \<^verbatim>\<open>kotlinlang.org.yaml\<close>, the files written (name and content, in order), and the
  exception that ended the run, if one did.
\<close>

record world =
  stdout :: "string list"
  yaml_file :: string
  md_files :: "(string \<times> string) list"
  raised :: "error option"

definition yaml_entry :: "string \<Rightarrow> section_entry \<Rightarrow> string" where
  "yaml_entry filename s =
     ''- md: '' @ filename @ [nl] @ ''  url: '' @ slug s @ ''.html'' @ [nl] @
     ''  title: '' @ [CHR 0x22] @ title s @ [CHR 0x22] @ [nl, nl]"

text \<open>
  One round of the output loop, for the section at index \<^verbatim>\<open>i\<close>: the manifest entry, the
  links of the buffer rewritten in place, the footer appended, the file written. The
  file is opened and the notice written before the buffer is joined, so a buffer with a
  byte above 127 leaves a file that holds the notice only.
\<close>

definition emit_section :: "nat \<Rightarrow> globals \<times> world \<Rightarrow> globals \<times> world" where
  "emit_section i gw =
     (let g = fst gw; w = snd gw; s = sections g ! i;
          filename = two_digits i @ ''-'' @ slug s @ ''.md'';
          w1 = w\<lparr>yaml_file := yaml_file w @ yaml_entry filename s\<rparr>;
          rewritten = fst (rewrite_buffer g (buffer s));
          w2 = w1\<lparr>stdout := stdout w1 @ snd (rewrite_buffer g (buffer s))\<rparr>;
          g1 = g\<lparr>sections := (sections g)[i := s\<lparr>buffer := rewritten\<rparr>]\<rparr>
      in case navigation i (sections g) of
           Inl e \<Rightarrow> (g1, w2\<lparr>raised := Some e\<rparr>)
         | Inr nav \<Rightarrow>
             (let final = rewritten @ [footer nav];
                  g2 = g\<lparr>sections := (sections g)[i := s\<lparr>buffer := final\<rparr>]\<rparr>
              in if list_all is_ascii rewritten
                 then (g2, w2\<lparr>md_files := md_files w2 @ [(filename, copyright_notice @ concat final)]\<rparr>)
                 else (g2, w2\<lparr>md_files := md_files w2 @ [(filename, copyright_notice)],
                             raised := Some UnicodeDecodeError\<rparr>)))"

text \<open>\<^verbatim>\<open>for i, (title, slug, section) in enumerate(sections)\<close>, ended by an exception.\<close>

fun emit_loop :: "nat list \<Rightarrow> globals \<times> world \<Rightarrow> globals \<times> world" where
  "emit_loop [] gw = gw"
| "emit_loop (i # rest) gw =
     (let gw' = emit_section i gw
      in if raised (snd gw') = None then emit_loop rest gw' else gw')"

definition run :: "string \<Rightarrow> globals \<times> world" where
  "run content =
     (let g = segment (file_lines content)
      in emit_loop [0..<length (sections g)]
           (g, \<lparr>stdout = [], yaml_file = [], md_files = [], raised = None\<rparr>))"

section \<open>Vocabulary of the properties\<close>

text \<open>The characters \<^verbatim>\<open>[a-z0-9-]\<close>.\<close>

definition slug_char :: "char \<Rightarrow> bool" where
  "slug_char c = (islower c \<or> isdigit c \<or> c = CHR ''-'')"


text \<open>
  Registries with one section slug and one subsection slug, for concrete runs of the
  rewriter.
\<close>

definition example_globals :: globals where
  "example_globals = initial\<lparr>section_slugs := {''alpha''},
     subsection_slugs := [''detail'' \<mapsto> Some ''alpha'']\<rparr>"

text \<open>
  A level-2 heading that opens a section: a line that starts with \<^verbatim>\<open>## \<close> and is not the
  line \<^verbatim>\<open>## Contents\<close>; and how many of them a list of lines holds.
\<close>

definition is_section_heading :: "string \<Rightarrow> bool" where
  "is_section_heading l = (startswith l ''## '' \<and> l \<noteq> ''## Contents'' @ [nl])"

definition section_headings :: "string list \<Rightarrow> nat" where
  "section_headings doc = length (filter is_section_heading doc)"

text \<open>A file with a preamble, a table of contents, two sections and text after the closing rule.\<close>

definition example_content :: string where
  "example_content =
     ''# Title'' @ [nl] @ ''---'' @ [nl] @ ''## Contents'' @ [nl] @ ''## Alpha'' @ [nl]
       @ ''content A'' @ [nl] @ ''## Beta'' @ [nl] @ ''---'' @ [nl] @ ''## Late'' @ [nl]"

text \<open>
  A subsection heading: a line that starts with a hash and not with \<^verbatim>\<open>## \<close>; and the key
  under which the loop registers it.
\<close>

definition is_subsection_heading :: "string \<Rightarrow> bool" where
  "is_subsection_heading l = (startswith l ''#'' \<and> \<not> startswith l ''## '')"

definition subsection_key :: "string \<Rightarrow> string" where
  "subsection_key l = slugify (slice_to_last 1 (remove_char CHR ''#'' l))"



text \<open>
  Documents for concrete runs: two subsections with one slug in different sections, with
  a preamble, a closing rule and a line after it; two such subsections and a later
  section of that slug; a subsection inside the Introduction.
\<close>

definition duplicate_closed_doc :: "string list" where
  "duplicate_closed_doc = [''# Title'' @ [nl], rule_line, ''## Alpha'' @ [nl], ''### Dup'' @ [nl],
     ''## Gamma'' @ [nl], ''### Dup'' @ [nl], ''text'' @ [nl], rule_line, ''### Dup'' @ [nl]]"

definition shadowed_doc :: "string list" where
  "shadowed_doc = [rule_line, ''## Alpha'' @ [nl], ''### Beta'' @ [nl], ''## Gamma'' @ [nl],
     ''### Beta'' @ [nl], ''## Beta'' @ [nl]]"

definition introduction_doc :: "string list" where
  "introduction_doc = [rule_line, ''### Detail'' @ [nl]]"

text \<open>
  The navigation entries of the section at index \<^verbatim>\<open>i\<close>, by position alone: a Previous
  entry for section \<^verbatim>\<open>i - 1\<close> when there is one, then a Next entry for section \<^verbatim>\<open>i + 1\<close>
  when there is one.
\<close>

definition expected_navigation :: "nat \<Rightarrow> section_entry list \<Rightarrow> string list" where
  "expected_navigation i secs =
     (if 0 < i
      then [''['' @ left_arrow @ '' Previous: '' @ title (secs ! (i - 1)) @ '']('' @
              slug (secs ! (i - 1)) @ ''.html)'']
      else [])
     @ (if i < length secs - 1
        then [''[Next: '' @ title (secs ! (i + 1)) @ '' '' @ right_arrow @ '']('' @
                slug (secs ! (i + 1)) @ ''.html)'']
        else [])"

text \<open>Nothing printed or written yet, and section lists of three entries and of one.\<close>

definition empty_world :: world where
  "empty_world = \<lparr>stdout = [], yaml_file = [], md_files = [], raised = None\<rparr>"

definition three_sections :: globals where
  "three_sections = initial\<lparr>sections :=
     [\<lparr>title = ''Introduction'', slug = ''introduction'', buffer = []\<rparr>,
      \<lparr>title = ''Alpha'', slug = ''alpha'', buffer = [''content A'' @ [nl]]\<rparr>,
      \<lparr>title = ''Beta'', slug = ''beta'', buffer = []\<rparr>]\<rparr>"

definition one_section :: globals where
  "one_section = initial\<lparr>sections :=
     [\<lparr>title = ''Introduction'', slug = ''introduction'', buffer = []\<rparr>]\<rparr>"

text \<open>The lines of a document whose section Alpha links to itself.\<close>

definition linked_doc :: "string list" where
  "linked_doc = [rule_line, ''## Alpha'' @ [nl], ''see [x](#alpha)'' @ [nl]]"

text \<open>
  What the segmenter keeps of the lines between the opening rule and the end of the
  segmented text. A level-2 heading other than \<^verbatim>\<open>Contents\<close> opens a section and is kept as
  its title (the line without \<^verbatim>\<open>## \<close> and without its last character). Of the other lines,
  a blank line is dropped while the current section has no line yet, and every other
  line is stored: a subsection heading without its first hash, any other line (the
  \<^verbatim>\<open>Contents\<close> heading among them) as it is. \<open>kept_buffers\<close> lists the buffers of the
  sections in order; its first argument is the buffer of the current section.
\<close>

definition opens_section :: "string \<Rightarrow> bool" where
  "opens_section l = (startswith l ''## '' \<and> slice_to_last 3 l \<noteq> ''Contents'')"

definition stored_line :: "string \<Rightarrow> string" where
  "stored_line l =
     (if startswith l ''## '' then l else if startswith l ''#'' then drop 1 l else l)"

fun kept_buffers :: "string list \<Rightarrow> string list \<Rightarrow> string list list" where
  "kept_buffers cur [] = [cur]"
| "kept_buffers cur (l # ls) =
     (if opens_section l then cur # kept_buffers [] ls
      else if cur = [] \<and> l = [nl] then kept_buffers cur ls
      else kept_buffers (cur @ [stored_line l]) ls)"

text \<open>
  Documents for concrete runs: a blank line right after the opening rule and no closing
  rule; a section whose title holds a byte above 127 (the UTF-8 encoding of U+00E9).
\<close>

definition blank_doc :: "string list" where
  "blank_doc = [rule_line, [nl], ''text'' @ [nl]]"

definition non_ascii_doc :: "string list" where
  "non_ascii_doc = [rule_line, ''intro'' @ [nl], ''## Caf'' @ [CHR 0xC3, CHR 0xA9] @ [nl]]"

section \<open>Slugification: properties\<close>

lemma islower_lower_char: "isupper c \<Longrightarrow> islower (lower_char c)"
  by (simp add: lower_char_def isupper_def islower_def in_range_def)

lemma hyphen_not_upper: "\<not> isupper CHR ''-''"
  by (simp add: isupper_def in_range_def)

lemma slug_char_lower_char:
  assumes "isalnum c \<or> c = CHR ''-''"
  shows "slug_char (lower_char c)"
proof (cases "isupper c")
  case True
  then show ?thesis by (simp add: slug_char_def islower_lower_char)
next
  case False
  with assms show ?thesis by (auto simp: slug_char_def lower_char_def isalnum_def)
qed

lemma slugify_map_filter:
  "slugify t = map (\<lambda>c. if c = CHR '' '' then CHR ''-'' else lower_char c)
      (filter (\<lambda>c. isalnum c \<or> c = CHR '' '' \<or> c = CHR ''-'') t)"
  by (induction t)
    (auto simp: slugify_def lower_def replace_char_def lower_char_def hyphen_not_upper)

lemma slugify_slug_chars: "list_all slug_char (slugify t)"
  unfolding slugify_map_filter list_all_iff
  using slug_char_lower_char by (auto simp: slug_char_def)

text \<open>
  C3. \<open>slugify\<close> keeps, in order, exactly the characters of the title that are
  alphanumeric, a space or a hyphen (every other character is dropped and nothing is put
  in its place), turns each kept space into a hyphen and lower-cases each kept letter;
  every character of the result is in \<^verbatim>\<open>[a-z0-9-]\<close>. As a function of the title alone,
  it gives one result per title.
\<close>

theorem slugify_keeps_and_lowers:
  "slugify t = map (\<lambda>c. if c = CHR '' '' then CHR ''-'' else lower_char c)
      (filter (\<lambda>c. isalnum c \<or> c = CHR '' '' \<or> c = CHR ''-'') t)
   \<and> list_all slug_char (slugify t)"
  using slugify_map_filter slugify_slug_chars by blast

section \<open>The link rewriter: properties\<close>

lemma link_char_not_bracket [simp]:
  "\<not> link_char CHR '']''" "\<not> link_char CHR '')''" "\<not> link_char CHR ''#''"
  "\<not> link_char CHR ''(''" "\<not> link_char CHR ''.''"
  by (simp_all add: link_char_def islower_def isupper_def isdigit_def in_range_def)

lemma link_chars_no_bracket:
  "list_all link_char xs \<Longrightarrow> CHR '']'' \<notin> set xs \<and> CHR '')'' \<notin> set xs \<and> CHR ''#'' \<notin> set xs"
  by (auto simp: list_all_iff)

lemma match_link_Nil: "match_link [] = None"
  by (simp add: match_link_def startswith_def)

lemma match_link_other: "c \<noteq> CHR '']'' \<Longrightarrow> match_link (c # cs) = None"
  by (simp add: match_link_def startswith_def)

lemma startswith_Cons:
  "startswith s (c # p) \<longleftrightarrow> (\<exists>t. s = c # t \<and> startswith t p)"
  by (cases s) (auto simp: startswith_def)

lemma startswith_Nil: "startswith s []"
  by (simp add: startswith_def)

lemma match_link_iff:
  "match_link s = Some (link, rest) \<longleftrightarrow>
     link \<noteq> [] \<and> list_all link_char link \<and> s = ''](#'' @ link @ '')'' @ rest"
proof
  assume m: "match_link s = Some (link, rest)"
  then obtain t where s: "s = ''](#'' @ t"
    by (auto simp: match_link_def startswith_Cons startswith_Nil split: if_splits)
  with m have l: "link = takeWhile link_char t" "link \<noteq> []"
    and d: "startswith (dropWhile link_char t) '')''"
    and r: "rest = drop 1 (dropWhile link_char t)"
    by (auto simp: match_link_def Let_def split: if_splits)
  have "t = link @ dropWhile link_char t"
    using l by simp
  moreover have "dropWhile link_char t = '')'' @ rest"
    using d r by (auto simp: startswith_Cons)
  ultimately have "s = ''](#'' @ link @ '')'' @ rest" using s by simp
  moreover have "list_all link_char link"
    using l by (simp add: list_all_iff) (meson set_takeWhileD)
  ultimately show "link \<noteq> [] \<and> list_all link_char link \<and> s = ''](#'' @ link @ '')'' @ rest"
    using l by blast
next
  assume a: "link \<noteq> [] \<and> list_all link_char link \<and> s = ''](#'' @ link @ '')'' @ rest"
  then have t: "takeWhile link_char (link @ CHR '')'' # rest) = link"
    and d: "dropWhile link_char (link @ CHR '')'' # rest) = CHR '')'' # rest"
    by (simp_all add: list_all_iff takeWhile_append2 dropWhile_append2)
  from a have "startswith s ''](#''" and "drop 3 s = link @ CHR '')'' # rest"
    by (simp_all add: startswith_Cons startswith_Nil)
  with a t d show "match_link s = Some (link, rest)"
    by (simp add: match_link_def startswith_Cons startswith_Nil Let_def)
qed

lemma sub_other:
  "c \<noteq> CHR '']'' \<Longrightarrow>
     link_regex_sub g (c # cs) = (c # fst (link_regex_sub g cs), snd (link_regex_sub g cs))"
  by (simp add: match_link_other)

lemma sub_prefix:
  "CHR '']'' \<notin> set pre \<Longrightarrow>
     link_regex_sub g (pre @ s) = (pre @ fst (link_regex_sub g s), snd (link_regex_sub g s))"
proof (induction pre)
  case Nil
  then show ?case by simp
next
  case (Cons c pre)
  then have "c \<noteq> CHR '']''" by auto
  then have "link_regex_sub g ((c # pre) @ s) = (c # fst (link_regex_sub g (pre @ s)), snd (link_regex_sub g (pre @ s)))"
    using sub_other by simp
  with Cons show ?case by simp
qed

lemma sub_match:
  assumes "link \<noteq> []" "list_all link_char link"
  shows "link_regex_sub g (''](#'' @ link @ '')'' @ rest) =
     (fst (substitute_link g link) @ fst (link_regex_sub g rest),
      snd (substitute_link g link) @ snd (link_regex_sub g rest))"
proof -
  have "match_link (''](#'' @ link @ '')'' @ rest) = Some (link, rest)"
    using assms match_link_iff by blast
  then show ?thesis by simp
qed

text \<open>
  An occurrence starts with a closing bracket, which no match holds after its first
  character: so no match reaches from the text before an occurrence into it, and the
  text before is rewritten as it would be on its own.
\<close>

lemma match_link_append_bracket:
  assumes "match_link (c # cs) = None"
  shows "match_link ((c # cs) @ CHR '']'' # t) = None"
proof (rule ccontr)
  assume "match_link ((c # cs) @ CHR '']'' # t) \<noteq> None"
  then obtain l r where "match_link ((c # cs) @ CHR '']'' # t) = Some (l, r)" by auto
  then have l: "l \<noteq> []" "list_all link_char l"
    and e: "(c # cs) @ CHR '']'' # t = (''](#'' @ l @ '')'') @ r"
    using match_link_iff [of "(c # cs) @ CHR '']'' # t" l r] by simp_all
  from e obtain us where
    "(c # cs = (''](#'' @ l @ '')'') @ us \<and> us @ CHR '']'' # t = r)
     \<or> ((c # cs) @ us = ''](#'' @ l @ '')'' \<and> CHR '']'' # t = us @ r)"
    unfolding append_eq_append_conv2 by blast
  then show False
  proof
    assume "c # cs = (''](#'' @ l @ '')'') @ us \<and> us @ CHR '']'' # t = r"
    then have "c # cs = ''](#'' @ l @ '')'' @ us" by simp
    with l have "match_link (c # cs) = Some (l, us)" using match_link_iff by blast
    with assms show False by simp
  next
    assume a: "(c # cs) @ us = ''](#'' @ l @ '')'' \<and> CHR '']'' # t = us @ r"
    show False
    proof (cases us)
      case Nil
      with a have "c # cs = ''](#'' @ l @ '')'' @ []" by simp
      with l have "match_link (c # cs) = Some (l, [])" using match_link_iff by blast
      with assms show False by simp
    next
      case (Cons u us')
      with a have "u = CHR '']''" by simp
      with a Cons have "cs @ CHR '']'' # us' = ''(#'' @ l @ '')''" by simp
      then have "CHR '']'' \<in> set (''(#'' @ l @ '')'')"
        by (metis in_set_conv_decomp)
      with l(2) show False using link_chars_no_bracket [of l] by auto
    qed
  qed
qed

lemma sub_append_bracket:
  "link_regex_sub g (pre @ CHR '']'' # t) =
     (fst (link_regex_sub g pre) @ fst (link_regex_sub g (CHR '']'' # t)),
      snd (link_regex_sub g pre) @ snd (link_regex_sub g (CHR '']'' # t)))"
proof (induction g pre rule: link_regex_sub.induct)
  case (1 g)
  then show ?case by simp
next
  case (2 g c cs)
  show ?case
  proof (cases "match_link (c # cs)")
    case None
    have n: "match_link (c # (cs @ CHR '']'' # t)) = None"
      using match_link_append_bracket [OF None, of t] by simp
    have ih: "link_regex_sub g (cs @ CHR '']'' # t) =
        (fst (link_regex_sub g cs) @ fst (link_regex_sub g (CHR '']'' # t)),
         snd (link_regex_sub g cs) @ snd (link_regex_sub g (CHR '']'' # t)))"
      using "2.IH" None by auto
    have "link_regex_sub g ((c # cs) @ CHR '']'' # t) =
        (c # fst (link_regex_sub g (cs @ CHR '']'' # t)),
         snd (link_regex_sub g (cs @ CHR '']'' # t)))"
      using n by simp
    also have "\<dots> = (fst (link_regex_sub g (c # cs)) @ fst (link_regex_sub g (CHR '']'' # t)),
         snd (link_regex_sub g (c # cs)) @ snd (link_regex_sub g (CHR '']'' # t)))"
      unfolding ih using None by simp
    finally show ?thesis .
  next
    case (Some m)
    obtain link rest where m: "m = (link, rest)" by (cases m)
    with Some have i: "link \<noteq> []" "list_all link_char link"
      and e: "c # cs = ''](#'' @ link @ '')'' @ rest"
      using match_link_iff [of "c # cs" link rest] by auto
    from e have "c # (cs @ CHR '']'' # t) = ''](#'' @ link @ '')'' @ (rest @ CHR '']'' # t)"
      by simp
    with i have n: "match_link (c # (cs @ CHR '']'' # t)) = Some (link, rest @ CHR '']'' # t)"
      using match_link_iff by blast
    have ih: "link_regex_sub g (rest @ CHR '']'' # t) =
        (fst (link_regex_sub g rest) @ fst (link_regex_sub g (CHR '']'' # t)),
         snd (link_regex_sub g rest) @ snd (link_regex_sub g (CHR '']'' # t)))"
      using "2.IH" Some m by auto
    have "link_regex_sub g ((c # cs) @ CHR '']'' # t) =
        (fst (substitute_link g link) @ fst (link_regex_sub g (rest @ CHR '']'' # t)),
         snd (substitute_link g link) @ snd (link_regex_sub g (rest @ CHR '']'' # t)))"
      using n by simp
    also have "\<dots> = (fst (link_regex_sub g (c # cs)) @ fst (link_regex_sub g (CHR '']'' # t)),
         snd (link_regex_sub g (c # cs)) @ snd (link_regex_sub g (CHR '']'' # t)))"
      unfolding ih using Some m by simp
    finally show ?thesis .
  qed
qed

lemma sub_occurrence:
  assumes "link \<noteq> []" "list_all link_char link"
  shows "link_regex_sub g (pre @ ''](#'' @ link @ '')'' @ rest) =
     (fst (link_regex_sub g pre) @ fst (substitute_link g link) @ fst (link_regex_sub g rest),
      snd (link_regex_sub g pre) @ snd (substitute_link g link) @ snd (link_regex_sub g rest))"
  using sub_append_bracket [of g pre "''(#'' @ link @ '')'' @ rest"]
    sub_match [OF assms, of g rest] by simp

lemma sub_no_hash: "CHR ''#'' \<notin> set s \<Longrightarrow> link_regex_sub g s = (s, [])"
proof (induction s)
  case Nil
  then show ?case by simp
next
  case (Cons c cs)
  have "match_link (c # cs) = None"
  proof (rule ccontr)
    assume "match_link (c # cs) \<noteq> None"
    then obtain l r where "match_link (c # cs) = Some (l, r)" by auto
    then have "c # cs = ''](#'' @ l @ '')'' @ r" using match_link_iff by blast
    then have "CHR ''#'' \<in> set (c # cs)" by simp
    with Cons.prems show False by simp
  qed
  with Cons show ?case by simp
qed

lemma sub_no_anchor:
  "\<forall>a b. s \<noteq> a @ ''](#'' @ b \<Longrightarrow> link_regex_sub g s = (s, [])"
proof (induction s)
  case Nil
  then show ?case by simp
next
  case (Cons c cs)
  have "match_link (c # cs) = None"
  proof (rule ccontr)
    assume "match_link (c # cs) \<noteq> None"
    then obtain l r where "match_link (c # cs) = Some (l, r)" by auto
    then have "c # cs = [] @ ''](#'' @ (l @ '')'' @ r)" using match_link_iff by simp
    with Cons.prems show False by blast
  qed
  moreover have "\<forall>a b. cs \<noteq> a @ ''](#'' @ b"
  proof (intro allI notI)
    fix a b assume "cs = a @ ''](#'' @ b"
    then have "c # cs = (c # a) @ ''](#'' @ b" by simp
    with Cons.prems show False by blast
  qed
  ultimately show ?case using Cons.IH by simp
qed

lemma no_hash_no_anchor: "CHR ''#'' \<notin> set s \<Longrightarrow> \<forall>a b. s \<noteq> a @ ''](#'' @ b"
  by auto

lemma link_char_simps:
  "link_char c = (c = CHR ''-'' \<or> (97 \<le> (of_char c :: nat) \<and> (of_char c :: nat) \<le> 122)
     \<or> (65 \<le> (of_char c :: nat) \<and> (of_char c :: nat) \<le> 90)
     \<or> (48 \<le> (of_char c :: nat) \<and> (of_char c :: nat) \<le> 57))"
  by (simp add: link_char_def islower_def isupper_def isdigit_def in_range_def)

text \<open>
  C1 (as amended). Wherever it stands in a line, an occurrence \<^verbatim>\<open>](#target)\<close> whose target
  is neither a section slug nor a key of the subsection registry is replaced by the bare
  target: the opening bracket and the visible text of the link stay as they are, one
  line \<^verbatim>\<open>Unknown: target\<close> is printed, and the text before and the text after the
  occurrence are rewritten as they would be on their own; text that holds no \<^verbatim>\<open>](#\<close> is
  left as it is. So \<^verbatim>\<open>see [x](#nowhere)\<close> becomes \<^verbatim>\<open>see [xnowhere\<close>.
\<close>

theorem unknown_link_replaced:
  assumes "link \<noteq> []" "list_all link_char link"
    and "link \<notin> section_slugs g" "subsection_slugs g link = None"
  shows "link_regex_sub g (pre @ ''](#'' @ link @ '')'' @ rest) =
           (fst (link_regex_sub g pre) @ link @ fst (link_regex_sub g rest),
            snd (link_regex_sub g pre) @ (''Unknown: '' @ link) # snd (link_regex_sub g rest))
       \<and> ((\<forall>a b. pre \<noteq> a @ ''](#'' @ b) \<longrightarrow> link_regex_sub g pre = (pre, []))"
proof -
  have "substitute_link g link = (link, [''Unknown: '' @ link])"
    using assms(3,4) by (simp add: substitute_link_def)
  with sub_occurrence [OF assms(1,2), of g pre rest] sub_no_anchor [of pre g]
  show ?thesis by simp
qed

theorem unknown_link_replaced_witness:
  "''nowhere'' \<noteq> [] \<and> list_all link_char ''nowhere''
   \<and> ''nowhere'' \<notin> section_slugs initial \<and> subsection_slugs initial ''nowhere'' = None
   \<and> (\<forall>a b. ''see [x'' \<noteq> a @ ''](#'' @ b)
   \<and> (\<forall>a b. ''[a](http://x) [c'' \<noteq> a @ ''](#'' @ b)
   \<and> link_regex_sub initial ''see [x](#nowhere)'' = (''see [xnowhere'', [''Unknown: nowhere''])
   \<and> link_regex_sub initial ''[a](http://x) [c](#nowhere) [d](#nowhere)'' =
       (''[a](http://x) [cnowhere [dnowhere'', [''Unknown: nowhere'', ''Unknown: nowhere''])"
proof -
  have h: "''nowhere'' \<noteq> []" "list_all link_char ''nowhere''"
    "''nowhere'' \<notin> section_slugs initial" "subsection_slugs initial ''nowhere'' = None"
    by (simp_all add: initial_def link_char_simps)
  have n1: "\<forall>a b. ''see [x'' \<noteq> a @ ''](#'' @ b"
    by (rule no_hash_no_anchor) simp
  have n2: "\<forall>a b. ''[a](http://x) [c'' \<noteq> a @ ''](#'' @ b"
    by (rule no_hash_no_anchor) simp
  have n3: "\<forall>a b. '' [d'' \<noteq> a @ ''](#'' @ b"
    by (rule no_hash_no_anchor) simp
  have e: "link_regex_sub initial [] = ([], [])" by simp
  note t1 = unknown_link_replaced [OF h, of "''see [x''" "[]"]
  note t2 = unknown_link_replaced [OF h, of "''[a](http://x) [c''" "'' [d](#nowhere)''"]
  note t3 = unknown_link_replaced [OF h, of "'' [d''" "[]"]
  from t1 n1 have p1: "link_regex_sub initial ''see [x'' = (''see [x'', [])" by blast
  from t2 n2 have p2: "link_regex_sub initial ''[a](http://x) [c'' = (''[a](http://x) [c'', [])"
    by blast
  from t3 n3 have p3: "link_regex_sub initial '' [d'' = ('' [d'', [])" by blast
  from t3 have r3: "link_regex_sub initial '' [d](#nowhere)'' = ('' [dnowhere'', [''Unknown: nowhere''])"
    unfolding p3 e by simp
  from t1 have r1: "link_regex_sub initial ''see [x](#nowhere)'' = (''see [xnowhere'', [''Unknown: nowhere''])"
    unfolding p1 e by simp
  from t2 have r2: "link_regex_sub initial ''[a](http://x) [c](#nowhere) [d](#nowhere)'' =
      (''[a](http://x) [cnowhere [dnowhere'', [''Unknown: nowhere'', ''Unknown: nowhere''])"
    unfolding p2 r3 by simp
  from h n1 n2 r1 r2 show ?thesis by blast
qed

text \<open>
  The claim as stated fails: with no slug \<^verbatim>\<open>nowhere\<close>, the line \<^verbatim>\<open>see [x](#nowhere)\<close>
  is not rewritten to \<^verbatim>\<open>see x\<close>.
\<close>

theorem unknown_link_not_stripped:
  "''nowhere'' \<notin> section_slugs initial \<and> subsection_slugs initial ''nowhere'' = None
   \<and> fst (link_regex_sub initial ''see [x](#nowhere)'') \<noteq> ''see x''"
  by code_simp

subsection \<open>Resolution order\<close>

text \<open>
  C5 (as amended). Wherever it stands in a line, a recognized occurrence \<^verbatim>\<open>](#target)\<close>
  whose target is a section slug becomes \<^verbatim>\<open>](target.html)\<close>, with no fragment;
  otherwise, one whose target is a key of the subsection registry becomes
  \<^verbatim>\<open>](owner.html#target)\<close>, where \<^verbatim>\<open>owner\<close> is the text of the value registered for the
  key: the slug of the owning section where the registry holds one. The section test
  comes first. Nothing is printed for the occurrence, and the text before it and the
  text after it are rewritten as they would be on their own: no state passes from one
  occurrence to the next. The link names the section by its URL, the slug followed by
  \<^verbatim>\<open>.html\<close>, as the manifest does.
\<close>

theorem link_resolution_order:
  assumes "link \<noteq> []" "list_all link_char link"
  shows "(link \<in> section_slugs g \<longrightarrow>
            link_regex_sub g (pre @ ''](#'' @ link @ '')'' @ rest) =
              (fst (link_regex_sub g pre) @ '']('' @ link @ ''.html)''
                 @ fst (link_regex_sub g rest),
               snd (link_regex_sub g pre) @ snd (link_regex_sub g rest)))
       \<and> (link \<notin> section_slugs g \<and> subsection_slugs g link = Some owner \<longrightarrow>
            link_regex_sub g (pre @ ''](#'' @ link @ '')'' @ rest) =
              (fst (link_regex_sub g pre) @ '']('' @ format_value owner @ ''.html#'' @ link
                 @ '')'' @ fst (link_regex_sub g rest),
               snd (link_regex_sub g pre) @ snd (link_regex_sub g rest)))"
  unfolding sub_occurrence [OF assms, of g pre rest]
  by (simp add: substitute_link_def)

theorem link_resolution_order_witness:
  "list_all link_char ''alpha'' \<and> list_all link_char ''detail''
   \<and> ''alpha'' \<in> section_slugs example_globals
   \<and> ''detail'' \<notin> section_slugs example_globals
   \<and> subsection_slugs example_globals ''detail'' = Some (Some ''alpha'')
   \<and> link_regex_sub example_globals ''[w](http://x) [a](#alpha) [d](#detail)'' =
       (''[w](http://x) [a](alpha.html) [d](alpha.html#detail)'', [])"
proof -
  have h: "''alpha'' \<noteq> []" "list_all link_char ''alpha''"
    and k: "''detail'' \<noteq> []" "list_all link_char ''detail''"
    by (simp_all add: link_char_simps)
  have r: "''alpha'' \<in> section_slugs example_globals"
    "''detail'' \<notin> section_slugs example_globals"
    "subsection_slugs example_globals ''detail'' = Some (Some ''alpha'')"
    by (simp_all add: example_globals_def initial_def)
  have p1: "link_regex_sub example_globals ''[w](http://x) [a'' = (''[w](http://x) [a'', [])"
    by (rule sub_no_hash) simp
  have p2: "link_regex_sub example_globals '' [d'' = ('' [d'', [])"
    using sub_prefix [of "'' [d''" example_globals "[]"] by simp
  have e: "link_regex_sub example_globals [] = ([], [])" by simp
  from link_resolution_order [OF k, where g = example_globals and owner = "Some ''alpha''"
      and pre = "'' [d''" and rest = "[]"] r
  have r2: "link_regex_sub example_globals '' [d](#detail)'' = ('' [d](alpha.html#detail)'', [])"
    unfolding p2 e by simp
  from link_resolution_order [OF h, where g = example_globals and owner = None
      and pre = "''[w](http://x) [a''" and rest = "'' [d](#detail)''"] r
  have r1: "link_regex_sub example_globals ''[w](http://x) [a](#alpha) [d](#detail)'' =
      (''[w](http://x) [a](alpha.html) [d](alpha.html#detail)'', [])"
    unfolding p1 r2 by simp
  from h k r r1 show ?thesis by blast
qed

subsection \<open>What the pattern recognizes\<close>

lemma first_occurrence:
  "c \<notin> set a \<Longrightarrow> c \<notin> set b \<Longrightarrow> a @ c # x = b @ c # y \<Longrightarrow> a = b"
proof (induction a arbitrary: b)
  case Nil
  then show ?case by (cases b) auto
next
  case (Cons d a)
  from Cons.prems obtain e b' where b: "b = e # b'" by (cases b) auto
  with Cons.prems have "d = e" "a @ c # x = b' @ c # y" "c \<notin> set a" "c \<notin> set b'"
    by simp_all
  with Cons.IH [of b'] b show ?case by simp
qed

lemma sub_unmatched:
  assumes "CHR '']'' \<notin> set pre" "CHR '']'' \<notin> set ident" "CHR '')'' \<notin> set ident"
    and "\<not> list_all link_char ident"
  shows "link_regex_sub g (pre @ ''](#'' @ ident @ '')'' @ rest) =
     (pre @ ''](#'' @ ident @ '')'' @ fst (link_regex_sub g rest), snd (link_regex_sub g rest))"
proof -
  have "match_link (''](#'' @ ident @ '')'' @ rest) = None"
  proof (rule ccontr)
    assume "match_link (''](#'' @ ident @ '')'' @ rest) \<noteq> None"
    then obtain l r where "match_link (''](#'' @ ident @ '')'' @ rest) = Some (l, r)" by auto
    then have l: "list_all link_char l" and e: "ident @ CHR '')'' # rest = l @ CHR '')'' # r"
      using match_link_iff [of "''](#'' @ ident @ '')'' @ rest" l r] by simp_all
    from l have "CHR '')'' \<notin> set l" using link_chars_no_bracket by blast
    with e assms(3) have "ident = l"
      using first_occurrence [of "CHR '')''" ident l rest r] by simp
    with l assms(4) show False by simp
  qed
  then have "link_regex_sub g (''](#'' @ ident @ '')'' @ rest) =
     (CHR '']'' # fst (link_regex_sub g ((''(#'' @ ident @ '')'') @ rest)),
      snd (link_regex_sub g ((''(#'' @ ident @ '')'') @ rest)))"
    by simp
  moreover have "CHR '']'' \<notin> set (''(#'' @ ident @ '')'')" using assms(2) by simp
  then have "link_regex_sub g ((''(#'' @ ident @ '')'') @ rest) =
     ((''(#'' @ ident @ '')'') @ fst (link_regex_sub g rest), snd (link_regex_sub g rest))"
    by (rule sub_prefix)
  ultimately have "link_regex_sub g (''](#'' @ ident @ '')'' @ rest) =
     (''](#'' @ ident @ '')'' @ fst (link_regex_sub g rest), snd (link_regex_sub g rest))"
    by simp
  then show ?thesis
    using sub_prefix [OF assms(1), of g "''](#'' @ ident @ '')'' @ rest"] by simp
qed

text \<open>
  C7 (as amended). The pattern matches at a position exactly when the text there is
  \<^verbatim>\<open>](#\<close>, a non-empty run of hyphens, ASCII letters of either case and digits, and
  \<^verbatim>\<open>)\<close>. Wherever it stands in a line, such an occurrence is handed to \<^verbatim>\<open>substitute_link\<close>
  and replaced by what it returns, and an occurrence \<^verbatim>\<open>](#ident)\<close> whose identifier (the
  text up to the next \<^verbatim>\<open>)\<close>) holds a character outside that class, and no \<^verbatim>\<open>]\<close> at which
  another occurrence could start, is left as it is; the text before and the text after
  are rewritten as they would be on their own.
\<close>

theorem link_regex_recognizes:
  "(match_link s = Some (link, rest) \<longleftrightarrow>
      link \<noteq> [] \<and> list_all link_char link \<and> s = ''](#'' @ link @ '')'' @ rest)
   \<and> (target \<noteq> [] \<and> list_all link_char target \<longrightarrow>
        link_regex_sub g (pre @ ''](#'' @ target @ '')'' @ rest') =
          (fst (link_regex_sub g pre) @ fst (substitute_link g target)
             @ fst (link_regex_sub g rest'),
           snd (link_regex_sub g pre) @ snd (substitute_link g target)
             @ snd (link_regex_sub g rest')))
   \<and> (CHR '']'' \<notin> set ident \<and> CHR '')'' \<notin> set ident \<and> \<not> list_all link_char ident \<longrightarrow>
        link_regex_sub g (pre @ ''](#'' @ ident @ '')'' @ rest') =
          (fst (link_regex_sub g pre) @ ''](#'' @ ident @ '')'' @ fst (link_regex_sub g rest'),
           snd (link_regex_sub g pre) @ snd (link_regex_sub g rest')))"
proof -
  have "link_regex_sub g (pre @ ''](#'' @ ident @ '')'' @ rest') =
      (fst (link_regex_sub g pre) @ ''](#'' @ ident @ '')'' @ fst (link_regex_sub g rest'),
       snd (link_regex_sub g pre) @ snd (link_regex_sub g rest'))"
    if h: "CHR '']'' \<notin> set ident" "CHR '')'' \<notin> set ident" "\<not> list_all link_char ident"
  proof -
    have "CHR '']'' \<notin> set []" by simp
    from sub_unmatched [OF this h, of g rest']
    have "link_regex_sub g (''](#'' @ ident @ '')'' @ rest') =
        (''](#'' @ ident @ '')'' @ fst (link_regex_sub g rest'), snd (link_regex_sub g rest'))"
      by simp
    with sub_append_bracket [of g pre "''(#'' @ ident @ '')'' @ rest'"] show ?thesis by simp
  qed
  with match_link_iff sub_occurrence show ?thesis by blast
qed

theorem link_regex_recognizes_witness:
  "match_link ''](#aB-1)x'' = Some (''aB-1'', ''x'')
   \<and> ''Aa'' \<noteq> [] \<and> list_all link_char ''Aa''
   \<and> CHR '']'' \<notin> set ''a_b'' \<and> CHR '')'' \<notin> set ''a_b'' \<and> \<not> list_all link_char ''a_b''
   \<and> link_regex_sub example_globals ''[w](http://x) [s](#Aa) [t](#a_b) u'' =
       (''[w](http://x) [sAa [t](#a_b) u'', [''Unknown: Aa''])"
proof -
  have h: "CHR '']'' \<notin> set ''a_b'' \<and> CHR '')'' \<notin> set ''a_b'' \<and> \<not> list_all link_char ''a_b''"
    by (simp add: link_char_simps)
  have k: "''aB-1'' \<noteq> [] \<and> list_all link_char ''aB-1''"
    by (simp add: link_char_simps)
  have a: "''Aa'' \<noteq> [] \<and> list_all link_char ''Aa''"
    by (simp add: link_char_simps)
  have u: "link_regex_sub example_globals '' u'' = ('' u'', [])"
    "link_regex_sub example_globals '' [t'' = ('' [t'', [])"
    "link_regex_sub example_globals ''[w](http://x) [s'' = (''[w](http://x) [s'', [])"
    by (rule sub_no_hash, simp)+
  have sl: "substitute_link example_globals ''Aa'' = (''Aa'', [''Unknown: Aa''])"
    by (simp add: substitute_link_def example_globals_def initial_def)
  note t1 = link_regex_recognizes [where s = "''](#aB-1)x''" and link = "''aB-1''" and rest = "''x''"
      and ident = "''a_b''" and g = example_globals and pre = "'' [t''"
      and rest' = "'' u''" and target = "''Aa''"]
  note t2 = link_regex_recognizes [where s = "''](#aB-1)x''" and link = "''aB-1''" and rest = "''x''"
      and ident = "''a_b''" and g = example_globals and pre = "''[w](http://x) [s''"
      and rest' = "'' [t](#a_b) u''" and target = "''Aa''"]
  from t1 k have m: "match_link ''](#aB-1)x'' = Some (''aB-1'', ''x'')" by simp
  from t1 h have "link_regex_sub example_globals ('' [t'' @ ''](#'' @ ''a_b'' @ '')'' @ '' u'') =
      (fst (link_regex_sub example_globals '' [t'') @ ''](#'' @ ''a_b'' @ '')''
         @ fst (link_regex_sub example_globals '' u''),
       snd (link_regex_sub example_globals '' [t'')
         @ snd (link_regex_sub example_globals '' u''))"
    by blast
  then have r1: "link_regex_sub example_globals '' [t](#a_b) u'' = ('' [t](#a_b) u'', [])"
    unfolding u by simp
  from t2 a have "link_regex_sub example_globals
        (''[w](http://x) [s'' @ ''](#'' @ ''Aa'' @ '')'' @ '' [t](#a_b) u'') =
      (fst (link_regex_sub example_globals ''[w](http://x) [s'')
         @ fst (substitute_link example_globals ''Aa'')
         @ fst (link_regex_sub example_globals '' [t](#a_b) u''),
       snd (link_regex_sub example_globals ''[w](http://x) [s'')
         @ snd (substitute_link example_globals ''Aa'')
         @ snd (link_regex_sub example_globals '' [t](#a_b) u''))"
    by blast
  then have r2: "link_regex_sub example_globals ''[w](http://x) [s](#Aa) [t](#a_b) u'' =
      (''[w](http://x) [sAa [t](#a_b) u'', [''Unknown: Aa''])"
    unfolding u r1 sl by simp
  from m a h r2 show ?thesis by blast
qed

text \<open>
  The claim as stated fails: an identifier with an upper-case letter is recognized, and
  the occurrence is rewritten.
\<close>

theorem uppercase_target_rewritten:
  "match_link ''](#Intro)'' = Some (''Intro'', [])
   \<and> fst (link_regex_sub initial ''[x](#Intro)'') \<noteq> ''[x](#Intro)''"
  by code_simp

subsection \<open>A second pass\<close>

lemma sub_snd_prefix:
  "CHR '']'' \<notin> set pre \<Longrightarrow> snd (link_regex_sub g (pre @ s)) = snd (link_regex_sub g s)"
  by (simp add: sub_prefix)






section \<open>The segmenter: properties\<close>

lemma length_append_buffer: "length (append_buffer x ss) = length ss"
  by (induction x ss rule: append_buffer.induct) simp_all

lemma seen_section_line: "seen_preamble g \<Longrightarrow> seen_preamble (section_line g line)"
  by (simp add: section_line_def current_section_append_def Let_def)

lemma sections_section_line_nonempty:
  "sections g \<noteq> [] \<Longrightarrow> sections (section_line g line) \<noteq> []"
proof -
  assume ne: "sections g \<noteq> []"
  then have "append_buffer x (sections g) \<noteq> []" for x
    using length_append_buffer [of x "sections g"] by (metis length_0_conv)
  with ne show ?thesis
    by (simp add: section_line_def current_section_append_def Let_def)
qed

lemma seen_preamble_sections_loop:
  "(seen_preamble g \<longrightarrow> sections g \<noteq> []) \<Longrightarrow>
   seen_preamble (segment_loop g doc) \<longrightarrow> sections (segment_loop g doc) \<noteq> []"
proof (induction doc arbitrary: g)
  case Nil
  then show ?case by simp
next
  case (Cons line rest)
  show ?case
  proof (cases "seen_preamble g")
    case False
    have "seen_preamble (preamble_line g line) \<longrightarrow> sections (preamble_line g line) \<noteq> []"
      using Cons.prems by (simp add: preamble_line_def)
    from Cons.IH [OF this] False show ?thesis by simp
  next
    case True
    with Cons.prems have ne: "sections g \<noteq> []" by simp
    show ?thesis
    proof (cases "line = rule_line")
      case True
      with \<open>seen_preamble g\<close> ne show ?thesis by simp
    next
      case False
      have "seen_preamble (section_line g line) \<longrightarrow> sections (section_line g line) \<noteq> []"
        using sections_section_line_nonempty [OF ne] by simp
      from Cons.IH [OF this] False True show ?thesis by simp
    qed
  qed
qed

lemma seen_preamble_sections:
  "seen_preamble (segment doc) \<Longrightarrow> sections (segment doc) \<noteq> []"
  using seen_preamble_sections_loop [of initial doc] by (simp add: segment_def initial_def)

lemma loop_until_rule:
  "\<not> seen_preamble g \<Longrightarrow> rule_line \<notin> set pre \<Longrightarrow>
   segment_loop g (pre @ rule_line # rest) = segment_loop (preamble_line g rule_line) rest"
proof (induction pre)
  case Nil
  then show ?case by simp
next
  case (Cons l pre)
  then have "preamble_line g l = g" by (auto simp: preamble_line_def)
  with Cons show ?case by simp
qed

lemma loop_break:
  "seen_preamble g \<Longrightarrow> segment_loop g (body @ rule_line # post) = segment_loop g body"
proof (induction body arbitrary: g)
  case Nil
  then show ?case by simp
next
  case (Cons l body)
  then show ?case by (simp add: seen_section_line)
qed

lemma loop_fold:
  "seen_preamble g \<Longrightarrow> rule_line \<notin> set body \<Longrightarrow>
   segment_loop g body = foldl section_line g body"
proof (induction body arbitrary: g)
  case Nil
  then show ?case by simp
next
  case (Cons l body)
  then show ?case by (auto simp: seen_section_line)
qed

lemma seen_open: "seen_preamble (preamble_line g rule_line)"
  by (simp add: preamble_line_def)

lemma append_buffer_last:
  "ss \<noteq> [] \<Longrightarrow>
   append_buffer x ss = butlast ss @ [(last ss)\<lparr>buffer := buffer (last ss) @ [x]\<rparr>]"
  by (induction x ss rule: append_buffer.induct) simp_all

lemma length_sections_section_line:
  "length (sections (section_line g l)) =
     length (sections g) + (if startswith l ''## '' \<and> slice_to_last 3 l \<noteq> ''Contents'' then 1 else 0)"
  by (simp add: section_line_def current_section_append_def Let_def length_append_buffer)

lemma length_sections_fold:
  "length (sections (foldl section_line g body)) =
     length (sections g)
       + length (filter (\<lambda>l. startswith l ''## '' \<and> slice_to_last 3 l \<noteq> ''Contents'') body)"
  by (induction body arbitrary: g) (simp_all add: length_sections_section_line)

lemma contents_title:
  assumes "l \<noteq> []" "last l = nl" "startswith l ''## ''"
  shows "slice_to_last 3 l = ''Contents'' \<longleftrightarrow> l = ''## Contents'' @ [nl]"
proof -
  from assms(3) obtain t where l: "l = ''## '' @ t"
    by (auto simp: startswith_Cons)
  with assms(1,2) have "t \<noteq> []" by auto
  with l assms(2) have "t = butlast t @ [nl]"
    by (metis append_butlast_last_id last_appendR)
  moreover have "slice_to_last 3 l = butlast t" using l by (simp add: slice_to_last_def)
  ultimately show ?thesis using l by auto
qed

lemma lines_from_newline:
  "l \<in> set (butlast (lines_from cur s)) \<Longrightarrow> l \<noteq> [] \<and> last l = nl"
proof (induction cur s rule: lines_from.induct)
  case (1 cur)
  then show ?case by (simp split: if_splits)
next
  case (2 cur c cs)
  then show ?case by (auto split: if_splits)
qed

lemma body_lines_newline:
  assumes "file_lines content = pre @ rule_line # body @ rule_line # post" "l \<in> set body"
  shows "l \<noteq> [] \<and> last l = nl"
proof -
  have "butlast (pre @ rule_line # body @ rule_line # post) =
      pre @ rule_line # body @ butlast (rule_line # post)"
    by (simp add: butlast_append)
  with assms have "l \<in> set (butlast (lines_from [] content))"
    by (simp add: file_lines_def)
  then show ?thesis by (rule lines_from_newline)
qed

lemma example_content_lines:
  "file_lines example_content =
     [''# Title'' @ [nl]] @ rule_line # [''## Contents'' @ [nl], ''## Alpha'' @ [nl],
       ''content A'' @ [nl], ''## Beta'' @ [nl]] @ rule_line # [''## Late'' @ [nl]]"
  by (simp add: example_content_def file_lines_def rule_line_def)

text \<open>
  C4 (as amended). For a file whose lines are a preamble, the rule, a body, the closing
  rule and any lines after it, the number of sections is one (the Introduction) plus the
  number of level-2 headings of the body other than \<^verbatim>\<open>## Contents\<close>: headings before the
  first rule or after the closing rule count for nothing. The line \<^verbatim>\<open>## Contents\<close> does
  not open a section: it is appended as it is to the buffer of the current section.
\<close>

theorem sections_count:
  assumes "file_lines content = pre @ rule_line # body @ rule_line # post"
    and "rule_line \<notin> set pre" "rule_line \<notin> set body"
  shows "length (sections (segment (file_lines content))) = section_headings body + 1
       \<and> (sections g \<noteq> [] \<longrightarrow>
            sections (section_line g (''## Contents'' @ [nl])) =
              butlast (sections g) @
              [(last (sections g))\<lparr>buffer := buffer (last (sections g)) @ [''## Contents'' @ [nl]]\<rparr>])"
proof
  have n: "\<not> seen_preamble initial" by (simp add: initial_def)
  have "segment (file_lines content) =
      segment_loop (preamble_line initial rule_line) (body @ rule_line # post)"
    unfolding segment_def assms(1) using loop_until_rule [OF n assms(2)] by simp
  also have "\<dots> = segment_loop (preamble_line initial rule_line) body"
    using loop_break [OF seen_open] by simp
  also have "\<dots> = foldl section_line (preamble_line initial rule_line) body"
    using loop_fold [OF seen_open assms(3)] by simp
  finally have "length (sections (segment (file_lines content))) =
      1 + length (filter (\<lambda>l. startswith l ''## '' \<and> slice_to_last 3 l \<noteq> ''Contents'') body)"
    by (simp add: length_sections_fold preamble_line_def initial_def)
  moreover have "filter (\<lambda>l. startswith l ''## '' \<and> slice_to_last 3 l \<noteq> ''Contents'') body =
      filter is_section_heading body"
  proof (rule filter_cong [OF refl])
    fix l assume "l \<in> set body"
    then have "l \<noteq> [] \<and> last l = nl" using body_lines_newline [OF assms(1)] by blast
    then show "(startswith l ''## '' \<and> slice_to_last 3 l \<noteq> ''Contents'') = is_section_heading l"
      using contents_title [of l] by (auto simp: is_section_heading_def)
  qed
  ultimately show "length (sections (segment (file_lines content))) = section_headings body + 1"
    by (simp add: section_headings_def)
next
  show "sections g \<noteq> [] \<longrightarrow>
      sections (section_line g (''## Contents'' @ [nl])) =
        butlast (sections g) @
        [(last (sections g))\<lparr>buffer := buffer (last (sections g)) @ [''## Contents'' @ [nl]]\<rparr>]"
    by (simp add: section_line_def startswith_Cons startswith_Nil slice_to_last_def
        current_section_append_def append_buffer_last)
qed

theorem sections_count_witness:
  "file_lines example_content =
     [''# Title'' @ [nl]] @ rule_line # [''## Contents'' @ [nl], ''## Alpha'' @ [nl],
       ''content A'' @ [nl], ''## Beta'' @ [nl]] @ rule_line # [''## Late'' @ [nl]]
   \<and> rule_line \<notin> set [''# Title'' @ [nl]]
   \<and> rule_line \<notin> set [''## Contents'' @ [nl], ''## Alpha'' @ [nl], ''content A'' @ [nl],
        ''## Beta'' @ [nl]]
   \<and> length (sections (segment (file_lines example_content))) = 3
   \<and> sections (preamble_line initial rule_line) \<noteq> []
   \<and> sections (section_line (preamble_line initial rule_line) (''## Contents'' @ [nl])) =
       [\<lparr>title = ''Introduction'', slug = ''introduction'', buffer = [''## Contents'' @ [nl]]\<rparr>]"
proof -
  have h: "rule_line \<notin> set [''# Title'' @ [nl]]"
    "rule_line \<notin> set [''## Contents'' @ [nl], ''## Alpha'' @ [nl], ''content A'' @ [nl],
        ''## Beta'' @ [nl]]"
    by (simp_all add: rule_line_def)
  have c: "section_headings [''## Contents'' @ [nl], ''## Alpha'' @ [nl], ''content A'' @ [nl],
        ''## Beta'' @ [nl]] = 2"
    by (simp add: section_headings_def is_section_heading_def startswith_Cons startswith_Nil)
  have s: "sections (preamble_line initial rule_line) =
      [\<lparr>title = ''Introduction'', slug = ''introduction'', buffer = []\<rparr>]"
    by (simp add: preamble_line_def initial_def)
  from sections_count [OF example_content_lines h, of "preamble_line initial rule_line"]
    example_content_lines h c s
  show ?thesis by simp
qed

text \<open>
  The claim as stated fails: a level-2 heading after the closing rule is a level-2
  heading of the document, and adds no section.
\<close>

theorem heading_after_closing_rule:
  "length (sections (segment (file_lines (''---'' @ [nl] @ ''---'' @ [nl] @ ''## Late'' @ [nl])))) = 1
   \<and> section_headings (file_lines (''---'' @ [nl] @ ''---'' @ [nl] @ ''## Late'' @ [nl])) = 1"
  by code_simp

section \<open>The registries the segmenter builds\<close>

lemma slug_char_link_char: "slug_char c \<Longrightarrow> link_char c"
  by (auto simp: slug_char_def link_char_def)

lemma link_chars_slugify: "list_all link_char (slugify t)"
  using slugify_slug_chars [of t] slug_char_link_char by (auto simp: list_all_iff)












section \<open>Subsection headings\<close>

lemma subsection_slugs_section_line:
  "subsection_slugs (section_line g l) =
     (if is_subsection_heading l
      then (subsection_slugs g)(subsection_key l \<mapsto> current_section_slug g)
      else subsection_slugs g)"
  by (auto simp: section_line_def is_subsection_heading_def subsection_key_def
      current_section_append_def Let_def startswith_Cons)

lemma subsection_slugs_fold_other:
  "\<forall>l\<in>set zs. is_subsection_heading l \<longrightarrow> subsection_key l \<noteq> k \<Longrightarrow>
   subsection_slugs (foldl section_line g zs) k = subsection_slugs g k"
  by (induction zs arbitrary: g) (auto simp: subsection_slugs_section_line)

lemma segment_fold:
  assumes "rule_line \<notin> set pre" "rule_line \<notin> set body"
  shows "segment (pre @ rule_line # body) =
     foldl section_line (preamble_line initial rule_line) body"
proof -
  have n: "\<not> seen_preamble initial" by (simp add: initial_def)
  have "segment (pre @ rule_line # body) = segment_loop (preamble_line initial rule_line) body"
    unfolding segment_def using loop_until_rule [OF n assms(1)] by simp
  also have "\<dots> = foldl section_line (preamble_line initial rule_line) body"
    using loop_fold [OF seen_open assms(2)] by simp
  finally show ?thesis .
qed

lemma segment_append:
  assumes "rule_line \<notin> set pre" "rule_line \<notin> set (a @ b)"
  shows "segment (pre @ rule_line # a @ b) = foldl section_line (segment (pre @ rule_line # a)) b"
proof -
  from assms(2) have "rule_line \<notin> set a" by simp
  from segment_fold [OF assms(1) this] segment_fold [OF assms] show ?thesis by simp
qed

lemma segment_closed:
  assumes "rule_line \<notin> set pre" "rule_line \<notin> set body"
    and "closing = [] \<or> hd closing = rule_line"
  shows "segment (pre @ rule_line # body @ closing) =
     foldl section_line (preamble_line initial rule_line) body"
proof (cases closing)
  case Nil
  with segment_fold [OF assms(1,2)] show ?thesis by simp
next
  case (Cons c post)
  with assms(3) have c: "closing = rule_line # post" by simp
  have n: "\<not> seen_preamble initial" by (simp add: initial_def)
  have "segment (pre @ rule_line # body @ closing) =
      segment_loop (preamble_line initial rule_line) (body @ rule_line # post)"
    unfolding segment_def c using loop_until_rule [OF n assms(1)] by simp
  also have "\<dots> = segment_loop (preamble_line initial rule_line) body"
    using loop_break [OF seen_open] by simp
  also have "\<dots> = foldl section_line (preamble_line initial rule_line) body"
    using loop_fold [OF seen_open assms(2)] by simp
  finally show ?thesis .
qed

text \<open>
  C10 (as amended). When two subsection headings between the opening rule and the end of
  the segmented text (the closing rule, or the end of a document without one) have the
  same slug, the registry maps the slug to what \<^verbatim>\<open>current_section_slug\<close> holds at the later
  one, whatever the earlier one registered; the segmenter prints nothing and raises
  nothing. Where the later heading lies in a section opened by a level-2 heading, and the
  slug is not a section slug as well, every link to the slug, wherever it stands in a
  line, is rewritten to that section's URL with the slug as fragment.
\<close>

theorem duplicate_subsection_last_wins:
  assumes "rule_line \<notin> set pre" "rule_line \<notin> set (xs @ h1 # ys @ h2 # zs)"
    and "closing = [] \<or> hd closing = rule_line"
    and "is_subsection_heading h1" "subsection_key h1 = k"
    and "is_subsection_heading h2" "subsection_key h2 = k"
    and "\<forall>l\<in>set zs. is_subsection_heading l \<longrightarrow> subsection_key l \<noteq> k"
  shows "subsection_slugs (segment (pre @ rule_line # xs @ h1 # ys @ h2 # zs @ closing)) k =
           Some (current_section_slug (segment (pre @ rule_line # xs @ h1 # ys)))
       \<and> (k \<noteq> []
            \<and> k \<notin> section_slugs (segment (pre @ rule_line # xs @ h1 # ys @ h2 # zs @ closing))
            \<and> current_section_slug (segment (pre @ rule_line # xs @ h1 # ys)) = Some b \<longrightarrow>
          link_regex_sub (segment (pre @ rule_line # xs @ h1 # ys @ h2 # zs @ closing))
              (before @ ''](#'' @ k @ '')'' @ rest) =
            (fst (link_regex_sub (segment (pre @ rule_line # xs @ h1 # ys @ h2 # zs @ closing)) before)
               @ '']('' @ b @ ''.html#'' @ k @ '')''
               @ fst (link_regex_sub (segment (pre @ rule_line # xs @ h1 # ys @ h2 # zs @ closing)) rest),
             snd (link_regex_sub (segment (pre @ rule_line # xs @ h1 # ys @ h2 # zs @ closing)) before)
               @ snd (link_regex_sub (segment (pre @ rule_line # xs @ h1 # ys @ h2 # zs @ closing)) rest)))"
proof -
  define G where "G = segment (pre @ rule_line # xs @ h1 # ys @ h2 # zs @ closing)"
  define G2 where "G2 = segment (pre @ rule_line # xs @ h1 # ys)"
  have r2: "rule_line \<notin> set (xs @ h1 # ys)" using assms(2) by simp
  have "G = foldl section_line (preamble_line initial rule_line) (xs @ h1 # ys @ h2 # zs)"
    unfolding G_def using segment_closed [OF assms(1,2,3)] by simp
  moreover have "G2 = foldl section_line (preamble_line initial rule_line) (xs @ h1 # ys)"
    unfolding G2_def using segment_fold [OF assms(1) r2] by simp
  ultimately have "G = foldl section_line (section_line G2 h2) zs" by simp
  then have "subsection_slugs G k = subsection_slugs (section_line G2 h2) k"
    using subsection_slugs_fold_other [OF assms(8)] by simp
  with assms(6,7) have reg: "subsection_slugs G k = Some (current_section_slug G2)"
    by (simp add: subsection_slugs_section_line)
  have "link_regex_sub G (before @ ''](#'' @ k @ '')'' @ rest) =
      (fst (link_regex_sub G before) @ '']('' @ b @ ''.html#'' @ k @ '')''
         @ fst (link_regex_sub G rest),
       snd (link_regex_sub G before) @ snd (link_regex_sub G rest))"
    if h: "k \<noteq> []" "k \<notin> section_slugs G" "current_section_slug G2 = Some b"
  proof -
    have lk: "list_all link_char k" using assms(7) link_chars_slugify
      by (auto simp: subsection_key_def)
    have "substitute_link G k = ('']('' @ b @ ''.html#'' @ k @ '')'', [])"
      using h(2,3) reg by (simp add: substitute_link_def)
    with sub_occurrence [OF h(1) lk, of G before rest] show ?thesis by simp
  qed
  with reg show ?thesis unfolding G_def G2_def by blast
qed

theorem duplicate_subsection_last_wins_witness:
  "rule_line \<notin> set [''# Title'' @ [nl]]
   \<and> rule_line \<notin> set ([''## Alpha'' @ [nl]] @ (''### Dup'' @ [nl]) # [''## Gamma'' @ [nl]]
        @ (''### Dup'' @ [nl]) # [''text'' @ [nl]])
   \<and> hd [rule_line, ''### Dup'' @ [nl]] = rule_line
   \<and> is_subsection_heading (''### Dup'' @ [nl]) \<and> subsection_key (''### Dup'' @ [nl]) = ''dup''
   \<and> \<not> is_subsection_heading (''text'' @ [nl])
   \<and> ''dup'' \<notin> section_slugs (segment duplicate_closed_doc)
   \<and> current_section_slug (segment [''# Title'' @ [nl], rule_line, ''## Alpha'' @ [nl],
        ''### Dup'' @ [nl], ''## Gamma'' @ [nl]]) = Some ''gamma''
   \<and> subsection_slugs (segment duplicate_closed_doc) ''dup'' = Some (Some ''gamma'')
   \<and> link_regex_sub (segment duplicate_closed_doc) ''[w](http://x) [y](#dup) z'' =
       (''[w](http://x) [y](gamma.html#dup) z'', [])"
proof -
  have r: "rule_line \<notin> set [''# Title'' @ [nl]]"
    "rule_line \<notin> set ([''## Alpha'' @ [nl]] @ (''### Dup'' @ [nl]) # [''## Gamma'' @ [nl]]
        @ (''### Dup'' @ [nl]) # [''text'' @ [nl]])"
    by (simp_all add: rule_line_def)
  have cl: "hd [rule_line, ''### Dup'' @ [nl]] = rule_line" by simp
  then have cl': "[rule_line, ''### Dup'' @ [nl]] = [] \<or> hd [rule_line, ''### Dup'' @ [nl]] = rule_line"
    by blast
  have h: "is_subsection_heading (''### Dup'' @ [nl])"
    by (simp add: is_subsection_heading_def startswith_Cons startswith_Nil)
  have k: "subsection_key (''### Dup'' @ [nl]) = ''dup''"
    by code_simp
  have z: "\<not> is_subsection_heading (''text'' @ [nl])"
    by (simp add: is_subsection_heading_def startswith_Cons)
  then have z': "\<forall>l\<in>set [''text'' @ [nl]]. is_subsection_heading l \<longrightarrow> subsection_key l \<noteq> ''dup''"
    by simp
  have s: "''dup'' \<notin> section_slugs (segment duplicate_closed_doc)"
    by code_simp
  have c: "current_section_slug (segment [''# Title'' @ [nl], rule_line, ''## Alpha'' @ [nl],
        ''### Dup'' @ [nl], ''## Gamma'' @ [nl]]) = Some ''gamma''"
    by code_simp
  have d: "[''# Title'' @ [nl]] @ rule_line # [''## Alpha'' @ [nl]] @ (''### Dup'' @ [nl]) #
        [''## Gamma'' @ [nl]] @ (''### Dup'' @ [nl]) # [''text'' @ [nl]]
        @ [rule_line, ''### Dup'' @ [nl]] = duplicate_closed_doc"
    "[''# Title'' @ [nl]] @ rule_line # [''## Alpha'' @ [nl]] @ (''### Dup'' @ [nl]) #
        [''## Gamma'' @ [nl]] =
      [''# Title'' @ [nl], rule_line, ''## Alpha'' @ [nl], ''### Dup'' @ [nl], ''## Gamma'' @ [nl]]"
    by (simp_all add: duplicate_closed_doc_def)
  have p: "link_regex_sub (segment duplicate_closed_doc) ''[w](http://x) [y'' =
      (''[w](http://x) [y'', [])"
    by (rule sub_no_hash) simp
  have q: "link_regex_sub (segment duplicate_closed_doc) '' z'' = ('' z'', [])"
    by (rule sub_no_hash) simp
  note t = duplicate_subsection_last_wins [OF r cl' h k h k z', where b = "''gamma''"
      and before = "''[w](http://x) [y''" and rest = "'' z''", unfolded d]
  from t have 1: "subsection_slugs (segment duplicate_closed_doc) ''dup'' = Some (Some ''gamma'')"
    using c by simp
  from t s c have "link_regex_sub (segment duplicate_closed_doc)
        (''[w](http://x) [y'' @ ''](#'' @ ''dup'' @ '')'' @ '' z'') =
      (fst (link_regex_sub (segment duplicate_closed_doc) ''[w](http://x) [y'')
         @ '']('' @ ''gamma'' @ ''.html#'' @ ''dup'' @ '')''
         @ fst (link_regex_sub (segment duplicate_closed_doc) '' z''),
       snd (link_regex_sub (segment duplicate_closed_doc) ''[w](http://x) [y'')
         @ snd (link_regex_sub (segment duplicate_closed_doc) '' z''))"
    by blast
  then have 2: "link_regex_sub (segment duplicate_closed_doc) ''[w](http://x) [y](#dup) z'' =
      (''[w](http://x) [y](gamma.html#dup) z'', [])"
    unfolding p q by simp
  from r cl h k z s c 1 2 show ?thesis by blast
qed

text \<open>
  The claim as stated fails where the slug is a section slug too: the section test comes
  first, and the link goes to that section, not to the last owner of the subsection.
\<close>

theorem section_slug_shadows_subsection:
  "subsection_slugs (segment shadowed_doc) ''beta'' = Some (Some ''gamma'')
   \<and> fst (link_regex_sub (segment shadowed_doc) ''[x](#beta)'') = ''[x](beta.html)''"
  by code_simp

text \<open>
  C2. A subsection heading inside the Introduction loses one hash and is appended to the
  Introduction's buffer, but it is registered under \<^verbatim>\<open>None\<close>, not under the Introduction's
  slug: \<^verbatim>\<open>current_section_slug\<close> is assigned only where a level-2 heading opens a section.
  A link to the subsection then points to \<^verbatim>\<open>None.html\<close>.
\<close>

theorem subsection_in_introduction:
  "map slug (sections (segment introduction_doc)) = [''introduction'']
   \<and> map buffer (sections (segment introduction_doc)) = [[''## Detail'' @ [nl]]]
   \<and> subsection_slugs (segment introduction_doc) ''detail'' = Some None
   \<and> link_regex_sub (segment introduction_doc) ''[x](#detail)'' = (''[x](None.html#detail)'', [])"
  by code_simp

text \<open>
  Inside a section, a subsection heading is handled as the subsection rule says: the
  line without its first hash is appended to the buffer of the current section, and the
  key of the heading is registered with \<^verbatim>\<open>current_section_slug\<close> as owner, an earlier
  entry for the key being overwritten. For a heading written as hashes, a space, the
  title and the newline, the key is the slug of the title.
\<close>

lemma slugify_remove_hash: "slugify (remove_char CHR ''#'' t) = slugify t"
proof -
  have "filter (\<lambda>c. isalnum c \<or> c \<in> set [CHR '' '', CHR ''-'']) (filter (\<lambda>c. c \<noteq> CHR ''#'') t) =
      filter (\<lambda>c. isalnum c \<or> c \<in> set [CHR '' '', CHR ''-'']) t"
    unfolding filter_filter
    by (rule filter_cong [OF refl])
      (auto simp: isalnum_def islower_def isupper_def isdigit_def in_range_def)
  then show ?thesis by (simp add: slugify_def remove_char_def)
qed

lemma subsection_key_heading:
  "subsection_key (replicate n CHR ''#'' @ CHR '' '' # t @ [nl]) = slugify t"
proof -
  have "remove_char CHR ''#'' (replicate n CHR ''#'' @ CHR '' '' # t @ [nl]) =
      CHR '' '' # remove_char CHR ''#'' t @ [nl]"
    by (simp add: remove_char_def)
  then show ?thesis
    by (simp add: subsection_key_def slice_to_last_def slugify_remove_hash)
qed

theorem subsection_heading_registered:
  assumes "sections g \<noteq> []" "is_subsection_heading l"
  shows "section_line g l =
           g\<lparr>sections := butlast (sections g) @
                [(last (sections g))\<lparr>buffer := buffer (last (sections g)) @ [drop 1 l]\<rparr>],
             subsection_slugs := (subsection_slugs g)(subsection_key l \<mapsto> current_section_slug g)\<rparr>
       \<and> subsection_key (replicate n CHR ''#'' @ CHR '' '' # t @ [nl]) = slugify t"
proof -
  from assms(2) have "l \<noteq> [nl]"
    by (auto simp: is_subsection_heading_def startswith_Cons)
  with assms have "section_line g l =
      g\<lparr>sections := butlast (sections g) @
           [(last (sections g))\<lparr>buffer := buffer (last (sections g)) @ [drop 1 l]\<rparr>],
        subsection_slugs := (subsection_slugs g)(subsection_key l \<mapsto> current_section_slug g)\<rparr>"
    by (simp add: section_line_def is_subsection_heading_def
        subsection_key_def current_section_append_def append_buffer_last Let_def)
  then show ?thesis using subsection_key_heading by blast
qed

theorem subsection_heading_registered_witness:
  "sections (segment [rule_line, ''## Alpha'' @ [nl]]) \<noteq> []
   \<and> is_subsection_heading (''### Detail'' @ [nl])
   \<and> subsection_key (''### Detail'' @ [nl]) = ''detail''
   \<and> subsection_slugs (section_line (segment [rule_line, ''## Alpha'' @ [nl]]) (''### Detail'' @ [nl]))
         ''detail'' = Some (Some ''alpha'')
   \<and> buffer (last (sections
         (section_line (segment [rule_line, ''## Alpha'' @ [nl]]) (''### Detail'' @ [nl])))) =
       [''## Detail'' @ [nl]]"
proof -
  define g where "g = segment [rule_line, ''## Alpha'' @ [nl]]"
  have s: "sections g \<noteq> []" unfolding g_def by code_simp
  have h: "is_subsection_heading (''### Detail'' @ [nl])"
    by (simp add: is_subsection_heading_def startswith_Cons startswith_Nil)
  have c: "current_section_slug g = Some ''alpha''" unfolding g_def by code_simp
  have b: "buffer (last (sections g)) = []" unfolding g_def by code_simp
  have d: "slugify ''Detail'' = ''detail''" by code_simp
  note t = subsection_heading_registered [OF s h, of 3 "''Detail''"]
  from t d have k: "subsection_key (''### Detail'' @ [nl]) = ''detail''"
    by (simp add: numeral_3_eq_3)
  from t have "subsection_slugs (section_line g (''### Detail'' @ [nl])) (subsection_key (''### Detail'' @ [nl])) =
      Some (current_section_slug g)"
    by simp
  with k c have 1: "subsection_slugs (section_line g (''### Detail'' @ [nl])) ''detail'' = Some (Some ''alpha'')"
    by simp
  from t b have 2: "buffer (last (sections (section_line g (''### Detail'' @ [nl])))) = [''## Detail'' @ [nl]]"
    by simp
  from s h k 1 2 show ?thesis unfolding g_def by blast
qed

section \<open>Navigation: properties\<close>

lemma navigation_ascii:
  assumes "i < length secs" "\<forall>s\<in>set secs. is_ascii (title s) \<and> is_ascii (slug s)"
  shows "navigation i secs = Inr (expected_navigation i secs)"
proof -
  have p: "previous_link (secs ! (i - 1)) =
      Inr (''['' @ left_arrow @ '' Previous: '' @ title (secs ! (i - 1)) @ '']('' @
        slug (secs ! (i - 1)) @ ''.html)'')"
    using assms by (simp add: previous_link_def)
  have n: "next_link (secs ! (i + 1)) =
      Inr (''[Next: '' @ title (secs ! (i + 1)) @ '' '' @ right_arrow @ '']('' @
        slug (secs ! (i + 1)) @ ''.html)'')"
    if "i < length secs - 1"
    using that assms(2) by (simp add: next_link_def)
  show ?thesis
  proof (cases "i < length secs - 1")
    case True
    note nn = n [OF True]
    show ?thesis
    proof (cases "0 < i")
      case True
      with \<open>i < length secs - 1\<close> p nn show ?thesis
        by (simp add: navigation_def expected_navigation_def)
    next
      case False
      then have "i = 0" by simp
      with \<open>i < length secs - 1\<close> nn show ?thesis
        by (simp add: navigation_def expected_navigation_def)
    qed
  next
    case False
    show ?thesis
    proof (cases "0 < i")
      case True
      with \<open>\<not> i < length secs - 1\<close> p show ?thesis
        by (simp add: navigation_def expected_navigation_def)
    next
      case False
      with \<open>\<not> i < length secs - 1\<close> show ?thesis
        by (simp add: navigation_def expected_navigation_def)
    qed
  qed
qed

lemma emit_section_buffer:
  assumes "i < length (sections g)" "navigation i (sections g) = Inr nav"
  shows "buffer (sections (fst (emit_section i (g, w))) ! i) =
     fst (rewrite_buffer g (buffer (sections g ! i))) @ [footer nav]"
  using assms by (simp add: emit_section_def Let_def)

text \<open>
  For the section at index \<^verbatim>\<open>i\<close> of \<^verbatim>\<open>N\<close> sections with ASCII titles, the navigation
  holds a Previous link to section \<^verbatim>\<open>i - 1\<close> exactly when \<^verbatim>\<open>i > 0\<close>, followed by a Next
  link to section \<^verbatim>\<open>i + 1\<close> exactly when \<^verbatim>\<open>i < N - 1\<close>. The output loop appends to the
  section's rewritten buffer one footer: two newlines, the rule, two newlines, the links
  joined with \<^verbatim>\<open> | \<close>, and a newline. With a single section the navigation line of the
  footer is empty.
\<close>

theorem navigation_footer:
  assumes "i < length (sections g)"
    and "\<forall>s\<in>set (sections g). is_ascii (title s) \<and> is_ascii (slug s)"
  shows "navigation i (sections g) = Inr (expected_navigation i (sections g))
       \<and> buffer (sections (fst (emit_section i (g, w))) ! i) =
           fst (rewrite_buffer g (buffer (sections g ! i))) @
           [[nl, nl] @ ''---'' @ [nl, nl] @ join '' | '' (expected_navigation i (sections g)) @ [nl]]
       \<and> (length (sections g) = 1 \<longrightarrow>
            buffer (sections (fst (emit_section i (g, w))) ! i) =
              fst (rewrite_buffer g (buffer (sections g ! i))) @ [[nl, nl] @ ''---'' @ [nl, nl, nl]])"
proof -
  have a: "navigation i (sections g) = Inr (expected_navigation i (sections g))"
    using assms by (rule navigation_ascii)
  have b: "buffer (sections (fst (emit_section i (g, w))) ! i) =
      fst (rewrite_buffer g (buffer (sections g ! i))) @
      [[nl, nl] @ ''---'' @ [nl, nl] @ join '' | '' (expected_navigation i (sections g)) @ [nl]]"
    using emit_section_buffer [OF assms(1) a, of w] by (simp add: footer_def)
  have "expected_navigation i (sections g) = []" if "length (sections g) = 1"
    using that assms(1) by (simp add: expected_navigation_def)
  with a b show ?thesis by simp
qed

theorem navigation_footer_witness:
  "1 < length (sections three_sections)
   \<and> is_ascii ''Introduction'' \<and> is_ascii ''introduction'' \<and> is_ascii ''Alpha''
   \<and> is_ascii ''alpha'' \<and> is_ascii ''Beta'' \<and> is_ascii ''beta''
   \<and> navigation 1 (sections three_sections) =
       Inr [''['' @ left_arrow @ '' Previous: Introduction](introduction.html)'',
            ''[Next: Beta '' @ right_arrow @ ''](beta.html)'']
   \<and> buffer (sections (fst (emit_section 1 (three_sections, empty_world))) ! 1) =
       [''content A'' @ [nl],
        [nl, nl] @ ''---'' @ [nl, nl] @ ''['' @ left_arrow @
          '' Previous: Introduction](introduction.html) | [Next: Beta '' @ right_arrow @
          ''](beta.html)'' @ [nl]]
   \<and> length (sections one_section) = 1
   \<and> buffer (sections (fst (emit_section 0 (one_section, empty_world))) ! 0) =
       [[nl, nl] @ ''---'' @ [nl, nl, nl]]"
proof -
  have a: "is_ascii ''Introduction'' \<and> is_ascii ''introduction'' \<and> is_ascii ''Alpha''
     \<and> is_ascii ''alpha'' \<and> is_ascii ''Beta'' \<and> is_ascii ''beta''"
    by (simp add: is_ascii_def)
  have h3: "1 < length (sections three_sections)"
    "\<forall>s\<in>set (sections three_sections). is_ascii (title s) \<and> is_ascii (slug s)"
    using a by (simp_all add: three_sections_def initial_def)
  have h1: "0 < length (sections one_section)"
    "\<forall>s\<in>set (sections one_section). is_ascii (title s) \<and> is_ascii (slug s)"
    using a by (simp_all add: one_section_def initial_def)
  have l1: "length (sections one_section) = 1"
    by (simp add: one_section_def initial_def)
  have e: "expected_navigation 1 (sections three_sections) =
      [''['' @ left_arrow @ '' Previous: Introduction](introduction.html)'',
       ''[Next: Beta '' @ right_arrow @ ''](beta.html)'']"
    by (simp add: expected_navigation_def three_sections_def initial_def)
  have r3: "fst (rewrite_buffer three_sections (buffer (sections three_sections ! 1))) =
      [''content A'' @ [nl]]"
    by code_simp
  have r1: "fst (rewrite_buffer one_section (buffer (sections one_section ! 0))) = []"
    by code_simp
  note t3 = navigation_footer [OF h3, of empty_world]
  note t1 = navigation_footer [OF h1, of empty_world]
  from t3 have n: "navigation 1 (sections three_sections) =
      Inr [''['' @ left_arrow @ '' Previous: Introduction](introduction.html)'',
           ''[Next: Beta '' @ right_arrow @ ''](beta.html)'']"
    unfolding e by blast
  from t3 have b3: "buffer (sections (fst (emit_section 1 (three_sections, empty_world))) ! 1) =
      [''content A'' @ [nl],
       [nl, nl] @ ''---'' @ [nl, nl] @ ''['' @ left_arrow @
         '' Previous: Introduction](introduction.html) | [Next: Beta '' @ right_arrow @
         ''](beta.html)'' @ [nl]]"
    unfolding e r3 by simp
  from t1 l1 have "buffer (sections (fst (emit_section 0 (one_section, empty_world))) ! 0) =
      fst (rewrite_buffer one_section (buffer (sections one_section ! 0))) @
      [[nl, nl] @ ''---'' @ [nl, nl, nl]]"
    by blast
  then have b1: "buffer (sections (fst (emit_section 0 (one_section, empty_world))) ! 0) =
      [[nl, nl] @ ''---'' @ [nl, nl, nl]]"
    unfolding r1 by simp
  from h3(1) a n b3 l1 b1 show ?thesis by blast
qed

subsection \<open>Link targets and file names\<close>

lemma emit_section_file_name:
  assumes "navigation i (sections g) = Inr nav"
  shows "fst (last (md_files (snd (emit_section i (g, w))))) =
     two_digits i @ ''-'' @ slug (sections g ! i) @ ''.md''"
  using assms by (simp add: emit_section_def Let_def)

text \<open>
  The claim C5 as stated fails: the target written for a section slug is not the name of
  the section's output file. Section Alpha, at index 1, is written to \<^verbatim>\<open>01-alpha.md\<close>, and
  a link to it becomes \<^verbatim>\<open>](alpha.html)\<close>.
\<close>

theorem link_target_is_not_file_name:
  "fst (last (md_files (snd (emit_section 1 (segment linked_doc, empty_world))))) = ''01-alpha.md''
   \<and> hd (buffer (sections (fst (emit_section 1 (segment linked_doc, empty_world))) ! 1)) =
       ''see [x](alpha.html)'' @ [nl]"
proof -
  define g where "g = segment linked_doc"
  have secs: "sections g =
      [\<lparr>title = ''Introduction'', slug = ''introduction'', buffer = []\<rparr>,
       \<lparr>title = ''Alpha'', slug = ''alpha'', buffer = [''see [x](#alpha)'' @ [nl]]\<rparr>]"
    unfolding g_def by code_simp
  have nav: "navigation 1 (sections g) =
      Inr [''['' @ left_arrow @ '' Previous: Introduction](introduction.html)'']"
    unfolding secs by (simp add: navigation_def previous_link_def is_ascii_def)
  have rw: "fst (rewrite_buffer g [''see [x](#alpha)'' @ [nl]]) = [''see [x](alpha.html)'' @ [nl]]"
    unfolding g_def by code_simp
  have td: "two_digits 1 = ''01''" by code_simp
  have "fst (last (md_files (snd (emit_section 1 (g, empty_world))))) =
      two_digits 1 @ ''-'' @ slug (sections g ! 1) @ ''.md''"
    using nav by (rule emit_section_file_name)
  then have a: "fst (last (md_files (snd (emit_section 1 (g, empty_world))))) = ''01-alpha.md''"
    unfolding td secs by simp
  have "1 < length (sections g)" unfolding secs by simp
  from emit_section_buffer [OF this nav, of empty_world]
  have "buffer (sections (fst (emit_section 1 (g, empty_world))) ! 1) =
      fst (rewrite_buffer g (buffer (sections g ! 1))) @
      [footer [''['' @ left_arrow @ '' Previous: Introduction](introduction.html)'']]" .
  also have "buffer (sections g ! 1) = [''see [x](#alpha)'' @ [nl]]"
    unfolding secs by simp
  finally have b: "hd (buffer (sections (fst (emit_section 1 (g, empty_world))) ! 1)) =
      ''see [x](alpha.html)'' @ [nl]"
    unfolding rw by simp
  from a b show ?thesis unfolding g_def by blast
qed

section \<open>What the segmenter keeps\<close>

lemma title_append_buffer: "map title (append_buffer x ss) = map title ss"
  by (induction x ss rule: append_buffer.induct) simp_all

lemma map_buffer_butlast_last:
  "ss \<noteq> [] \<Longrightarrow> map buffer ss = map buffer (butlast ss) @ [buffer (last ss)]"
  by (metis append_butlast_last_id list.simps(8) list.simps(9) map_append)

lemma section_line_buffers:
  assumes "sections g \<noteq> []"
  shows "sections (section_line g l) \<noteq> []
     \<and> map buffer (butlast (sections (section_line g l))) @
           kept_buffers (buffer (last (sections (section_line g l)))) ls =
         map buffer (butlast (sections g)) @ kept_buffers (buffer (last (sections g))) (l # ls)"
proof (cases "startswith l ''## ''")
  case True
  then have nb: "l \<noteq> [nl]" by (auto simp: startswith_Cons)
  show ?thesis
  proof (cases "slice_to_last 3 l = ''Contents''")
    case True
    with \<open>startswith l ''## ''\<close> assms nb show ?thesis
      by (simp add: section_line_def opens_section_def stored_line_def current_section_append_def
          append_buffer_last)
  next
    case False
    with \<open>startswith l ''## ''\<close> assms map_buffer_butlast_last [OF assms] show ?thesis
      by (simp add: section_line_def opens_section_def Let_def)
  qed
next
  case False
  then have no: "\<not> opens_section l" by (simp add: opens_section_def)
  show ?thesis
  proof (cases "current_section_empty g \<and> l = [nl]")
    case True
    with False no assms show ?thesis
      by (simp add: section_line_def current_section_empty_def)
  next
    case False
    with \<open>\<not> startswith l ''## ''\<close> no assms show ?thesis
      by (auto simp: section_line_def current_section_empty_def stored_line_def Let_def
          current_section_append_def append_buffer_last)
  qed
qed

lemma fold_buffers:
  "sections g \<noteq> [] \<Longrightarrow>
   map buffer (sections (foldl section_line g body)) =
     map buffer (butlast (sections g)) @ kept_buffers (buffer (last (sections g))) body"
proof (induction body arbitrary: g)
  case Nil
  then show ?case using map_buffer_butlast_last by simp
next
  case (Cons l ls)
  from section_line_buffers [OF Cons.prems, of l ls]
  have ne: "sections (section_line g l) \<noteq> []"
    and e: "map buffer (butlast (sections (section_line g l))) @
           kept_buffers (buffer (last (sections (section_line g l)))) ls =
         map buffer (butlast (sections g)) @ kept_buffers (buffer (last (sections g))) (l # ls)"
    by blast+
  from Cons.IH [OF ne] e show ?case by simp
qed

lemma title_section_line:
  "map title (sections (section_line g l)) =
     map title (sections g) @ (if opens_section l then [slice_to_last 3 l] else [])"
  by (simp add: section_line_def opens_section_def Let_def current_section_append_def
      title_append_buffer)

lemma fold_titles:
  "map title (sections (foldl section_line g body)) =
     map title (sections g) @ map (slice_to_last 3) (filter opens_section body)"
  by (induction body arbitrary: g) (simp_all add: title_section_line)

text \<open>
  C8 (as amended). After the line that ends the preamble, the first line that is exactly
  the rule ends the loop: the globals are those of the document cut off before that
  line, so no later line is read or appended. A document with no closing rule is
  processed to its last line, and no branch of the loop raises: the buffers of the
  sections hold, in order, every remaining line (a subsection heading without its first
  hash) except the level-2 headings that open sections, which give the titles, and the
  blank lines met while the current section has no line yet, which are dropped.
\<close>

theorem closing_rule_halts:
  assumes "rule_line \<notin> set pre" "rule_line \<notin> set body"
  shows "segment (pre @ rule_line # body @ rule_line # post) = segment (pre @ rule_line # body)
       \<and> map buffer (sections (segment (pre @ rule_line # body))) = kept_buffers [] body
       \<and> map title (sections (segment (pre @ rule_line # body))) =
           ''Introduction'' # map (slice_to_last 3) (filter opens_section body)"
proof -
  have n: "\<not> seen_preamble initial" by (simp add: initial_def)
  have f: "segment (pre @ rule_line # body) =
      foldl section_line (preamble_line initial rule_line) body"
    using segment_fold [OF assms] .
  have "segment (pre @ rule_line # body @ rule_line # post) =
      segment_loop (preamble_line initial rule_line) (body @ rule_line # post)"
    unfolding segment_def using loop_until_rule [OF n assms(1)] by simp
  also have "\<dots> = segment_loop (preamble_line initial rule_line) body"
    using loop_break [OF seen_open] by simp
  also have "\<dots> = foldl section_line (preamble_line initial rule_line) body"
    using loop_fold [OF seen_open assms(2)] by simp
  finally have a: "segment (pre @ rule_line # body @ rule_line # post) =
      segment (pre @ rule_line # body)"
    using f by simp
  have s0: "sections (preamble_line initial rule_line) =
      [\<lparr>title = ''Introduction'', slug = ''introduction'', buffer = []\<rparr>]"
    by (simp add: preamble_line_def initial_def)
  then have "sections (preamble_line initial rule_line) \<noteq> []" by simp
  from fold_buffers [OF this, of body]
  have b: "map buffer (sections (segment (pre @ rule_line # body))) = kept_buffers [] body"
    unfolding f s0 by simp
  have c: "map title (sections (segment (pre @ rule_line # body))) =
      ''Introduction'' # map (slice_to_last 3) (filter opens_section body)"
    unfolding f fold_titles s0 by simp
  from a b c show ?thesis by blast
qed

theorem closing_rule_halts_witness:
  "rule_line \<notin> set [''# Title'' @ [nl]]
   \<and> rule_line \<notin> set [[nl], ''intro'' @ [nl], [nl], ''## Alpha'' @ [nl], ''### Sub'' @ [nl],
        ''text'' @ [nl]]
   \<and> segment ([''# Title'' @ [nl]] @ rule_line # [[nl], ''intro'' @ [nl], [nl],
        ''## Alpha'' @ [nl], ''### Sub'' @ [nl], ''text'' @ [nl]] @ rule_line # [''## Late'' @ [nl]]) =
       segment ([''# Title'' @ [nl]] @ rule_line # [[nl], ''intro'' @ [nl], [nl],
        ''## Alpha'' @ [nl], ''### Sub'' @ [nl], ''text'' @ [nl]])
   \<and> map buffer (sections (segment ([''# Title'' @ [nl]] @ rule_line # [[nl],
        ''intro'' @ [nl], [nl], ''## Alpha'' @ [nl], ''### Sub'' @ [nl], ''text'' @ [nl]]))) =
       [[''intro'' @ [nl], [nl]], [''## Sub'' @ [nl], ''text'' @ [nl]]]
   \<and> map title (sections (segment ([''# Title'' @ [nl]] @ rule_line # [[nl],
        ''intro'' @ [nl], [nl], ''## Alpha'' @ [nl], ''### Sub'' @ [nl], ''text'' @ [nl]]))) =
       [''Introduction'', ''Alpha'']"
proof -
  have h: "rule_line \<notin> set [''# Title'' @ [nl]]"
    "rule_line \<notin> set [[nl], ''intro'' @ [nl], [nl], ''## Alpha'' @ [nl], ''### Sub'' @ [nl],
        ''text'' @ [nl]]"
    by (simp_all add: rule_line_def)
  have k: "kept_buffers [] [[nl], ''intro'' @ [nl], [nl], ''## Alpha'' @ [nl], ''### Sub'' @ [nl],
        ''text'' @ [nl]] = [[''intro'' @ [nl], [nl]], [''## Sub'' @ [nl], ''text'' @ [nl]]]"
    by code_simp
  have t: "''Introduction'' # map (slice_to_last 3) (filter opens_section [[nl], ''intro'' @ [nl],
        [nl], ''## Alpha'' @ [nl], ''### Sub'' @ [nl], ''text'' @ [nl]]) =
      [''Introduction'', ''Alpha'']"
    by code_simp
  from closing_rule_halts [OF h, of "[''## Late'' @ [nl]]"] h show ?thesis
    unfolding k t by blast
qed

text \<open>
  The claim as stated fails: in a document with no closing rule, a blank line right after
  the opening rule is not included in any section.
\<close>

theorem leading_blank_line_dropped:
  "map buffer (sections (segment blank_doc)) = [[''text'' @ [nl]]]"
  by code_simp

section \<open>Navigation: a title that is not ASCII\<close>

text \<open>
  C6. With a section titled \<^verbatim>\<open>Caf\<close> and the two bytes of U+00E9, the navigation of the
  Introduction is not built: formatting the title into the \<^verbatim>\<open>unicode\<close> template of the
  Next link raises \<^verbatim>\<open>UnicodeDecodeError\<close>. The run ends there; the Introduction gets no
  footer and no file is written. The manifest line formats the same title into a byte
  string without harm, and the output is encoded as UTF-8 in the end.
\<close>

theorem non_ascii_title_raises:
  "map title (sections (segment non_ascii_doc)) = [''Introduction'', ''Caf'' @ [CHR 0xC3, CHR 0xA9]]
   \<and> navigation 0 (sections (segment non_ascii_doc)) = Inl UnicodeDecodeError
   \<and> raised (snd (emit_section 0 (segment non_ascii_doc, empty_world))) = Some UnicodeDecodeError
   \<and> buffer (sections (fst (emit_section 0 (segment non_ascii_doc, empty_world))) ! 0) =
       [''intro'' @ [nl]]
   \<and> md_files (snd (emit_section 0 (segment non_ascii_doc, empty_world))) = []"
proof -
  define g where "g = segment non_ascii_doc"
  have secs: "sections g =
      [\<lparr>title = ''Introduction'', slug = ''introduction'', buffer = [''intro'' @ [nl]]\<rparr>,
       \<lparr>title = ''Caf'' @ [CHR 0xC3, CHR 0xA9], slug = ''caf'', buffer = []\<rparr>]"
    unfolding g_def by code_simp
  have nav: "navigation 0 (sections g) = Inl UnicodeDecodeError"
    unfolding secs by (simp add: navigation_def next_link_def is_ascii_def)
  have l: "link_regex_sub g (''intro'' @ [nl]) = (''intro'' @ [nl], [])"
    by (rule sub_no_hash) simp
  have rw: "rewrite_buffer g [''intro'' @ [nl]] = ([''intro'' @ [nl]], [])"
    unfolding rewrite_buffer.simps l by simp
  have b: "buffer (sections g ! 0) = [''intro'' @ [nl]]" unfolding secs by simp
  have e: "emit_section 0 (g, empty_world) =
      (g\<lparr>sections := (sections g)[0 := (sections g ! 0)\<lparr>buffer := [''intro'' @ [nl]]\<rparr>]\<rparr>,
       empty_world\<lparr>yaml_file := yaml_file empty_world @
            yaml_entry (two_digits 0 @ ''-'' @ slug (sections g ! 0) @ ''.md'') (sections g ! 0),
          stdout := stdout (empty_world\<lparr>yaml_file := yaml_file empty_world @
            yaml_entry (two_digits 0 @ ''-'' @ slug (sections g ! 0) @ ''.md'') (sections g ! 0)\<rparr>) @ [],
          raised := Some UnicodeDecodeError\<rparr>)"
    unfolding emit_section_def Let_def fst_conv snd_conv nav b rw by simp
  have t: "map title (sections g) = [''Introduction'', ''Caf'' @ [CHR 0xC3, CHR 0xA9]]"
    unfolding secs by simp
  have r: "raised (snd (emit_section 0 (g, empty_world))) = Some UnicodeDecodeError"
    unfolding e by simp
  have bf: "buffer (sections (fst (emit_section 0 (g, empty_world))) ! 0) = [''intro'' @ [nl]]"
    unfolding e secs by simp
  have m: "md_files (snd (emit_section 0 (g, empty_world))) = []"
    unfolding e by (simp add: empty_world_def)
  from t nav r bf m show ?thesis unfolding g_def by blast
qed

end
